theory Spec2Isabelle
  imports Main "HOL-Library.Word" "HOL-Library.Signed_Division" "HOL-Library.Numeral_Type"
begin

unbundle bit_operations_syntax

section \<open>The limb store of \<open>BigInteger\<close>\<close>

text \<open>
  \<^verbatim>\<open>src/HighPrecision/BigInteger.hh\<close> keeps a magnitude as a
  \<^verbatim>\<open>std::vector<uint32_t>\<close>, least significant limb first, and a sign
  flag. The field \<^verbatim>\<open>value\<close> of the class is called \<open>limbs\<close> here.
  Indices and sizes (\<^verbatim>\<open>size_t\<close>) are natural numbers: a vector that
  fits in memory has fewer than \<open>2 ^ 63\<close> limbs, and no index computation of the
  modelled functions exceeds twice the size.
\<close>

type_synonym u32 = "32 word"
type_synonym u64 = "64 word"

record BigInteger =
  limbs :: "u32 list"
  negative :: bool

text \<open>The default constructor: one limb equal to zero, sign cleared.\<close>

definition BigInteger_zero :: BigInteger where
  "BigInteger_zero = \<lparr>limbs = [0], negative = False\<rparr>"

text \<open>
  \<^verbatim>\<open>std::vector::resize(n)\<close>: cut to \<open>n\<close> elements, or append
  value-initialised (zero) elements up to \<open>n\<close>.
\<close>

definition resize :: "u32 list \<Rightarrow> nat \<Rightarrow> u32 list" where
  "resize v n = take n v @ replicate (n - length v) 0"

text \<open>
  \<^verbatim>\<open>operator[]\<close> and iterator dereference are unchecked. A read inside
  the vector yields the limb; a read outside yields whatever word lies there, which the
  model takes as the parameter \<open>stray\<close>.
\<close>

definition rd :: "u32 list \<Rightarrow> u32 \<Rightarrow> nat \<Rightarrow> u32" where
  "rd v stray i = (if i < length v then v ! i else stray)"

subsection \<open>Normalisation\<close>

definition eliminateNegativeZero :: "BigInteger \<Rightarrow> BigInteger" where
  "eliminateNegativeZero self =
     (if length (limbs self) = 1 \<and> hd (limbs self) = 0
      then self\<lparr>negative := False\<rparr> else self)"

text \<open>
  The loop of \<^verbatim>\<open>trimLeadingZeros_\<close>:
  \<^verbatim>\<open>while (!this->value[len] && len) --len;\<close> started at
  \<^verbatim>\<open>len = this->value.size()\<close>. The limb is read before \<open>len\<close>
  is tested. \<open>trim_scan\<close> is the final \<open>len\<close>, \<open>trim_reads\<close> the
  indices read, in order.
\<close>

fun trim_scan :: "u32 list \<Rightarrow> u32 \<Rightarrow> nat \<Rightarrow> nat" where
  "trim_scan v stray len =
     (if rd v stray len = 0 \<and> len \<noteq> 0 then trim_scan v stray (len - 1) else len)"

fun trim_reads :: "u32 list \<Rightarrow> u32 \<Rightarrow> nat \<Rightarrow> nat list" where
  "trim_reads v stray len =
     len # (if rd v stray len = 0 \<and> len \<noteq> 0 then trim_reads v stray (len - 1) else [])"

definition trimLeadingZeros :: "u32 \<Rightarrow> BigInteger \<Rightarrow> BigInteger" where
  "trimLeadingZeros stray self =
     (let len = trim_scan (limbs self) stray (length (limbs self))
      in eliminateNegativeZero (self\<lparr>limbs := resize (limbs self) (len + 1)\<rparr>))"

text \<open>
  The representation invariant of the data model: at least one limb, no most significant
  zero limb except in the single limb of zero, and no negative zero.
\<close>

definition normalized :: "BigInteger \<Rightarrow> bool" where
  "normalized b =
     (limbs b \<noteq> [] \<and> (length (limbs b) = 1 \<or> last (limbs b) \<noteq> 0)
      \<and> \<not> (limbs b = [0] \<and> negative b))"

subsection \<open>Comparison\<close>

text \<open>
  \<^verbatim>\<open>std::equal(first1, last1, first2, pred)\<close> holds when \<open>pred\<close> holds
  at every position; both operators call it on ranges of one length.
\<close>

definition eq_op :: "BigInteger \<Rightarrow> BigInteger \<Rightarrow> bool" where
  "eq_op lhs rhs =
     (if negative lhs \<noteq> negative rhs then False
      else if length (limbs lhs) \<noteq> length (limbs rhs) then False
      else list_all2 (=) (limbs lhs) (limbs rhs))"

definition less_op :: "BigInteger \<Rightarrow> BigInteger \<Rightarrow> bool" where
  "less_op lhs rhs =
     (if negative lhs \<noteq> negative rhs then negative lhs
      else if length (limbs lhs) \<noteq> length (limbs rhs)
        then length (limbs lhs) < length (limbs rhs)
      else (negative lhs \<noteq> list_all2 (<) (rev (limbs lhs)) (rev (limbs rhs))))"

definition greater_op :: "BigInteger \<Rightarrow> BigInteger \<Rightarrow> bool" where
  "greater_op lhs rhs = less_op rhs lhs"

subsection \<open>Increment, decrement and NOT\<close>

text \<open>
  \<^verbatim>\<open>while (i != self.value.end() && !++*i++);\<close> adds one to the limb at
  \<open>i\<close>, steps \<open>i\<close>, and goes on while the limb wrapped to zero. The iterator
  starts at \<^verbatim>\<open>begin()\<close> and moves by one, so \<open>i \<noteq> end\<close> is
  \<open>i < length v\<close>. The result is the vector and the final \<open>i\<close>.
\<close>

function inc_loop :: "u32 list \<Rightarrow> nat \<Rightarrow> u32 list \<times> nat" where
  "inc_loop v i =
     (if i < length v
      then (let v' = v[i := v ! i + 1]
            in if v' ! i = 0 then inc_loop v' (i + 1) else (v', i + 1))
      else (v, i))"
  by pat_completeness auto
termination
  by (relation "measure (\<lambda>(v, i). length v - i)") auto

text \<open>
  \<^verbatim>\<open>while (i != self.value.end() && !~--*i++);\<close> subtracts one from the
  limb at \<open>i\<close> and goes on while the limb wrapped to all ones.
\<close>

function dec_loop :: "u32 list \<Rightarrow> nat \<Rightarrow> u32 list \<times> nat" where
  "dec_loop v i =
     (if i < length v
      then (let v' = v[i := v ! i - 1]
            in if NOT (v' ! i) = 0 then dec_loop v' (i + 1) else (v', i + 1))
      else (v, i))"
  by pat_completeness auto
termination
  by (relation "measure (\<lambda>(v, i). length v - i)") auto

text \<open>
  \<^verbatim>\<open>if (*(i - 1) == 0) self.value.push_back(1);\<close> after the carry loop,
  then the borrow loop followed by \<^verbatim>\<open>trimLeadingZeros_\<close>.
\<close>

definition carry_up :: "u32 \<Rightarrow> BigInteger \<Rightarrow> BigInteger" where
  "carry_up stray self =
     (case inc_loop (limbs self) 0 of (v, i) \<Rightarrow>
        if (if i = 0 then stray else v ! (i - 1)) = 0
        then self\<lparr>limbs := v @ [1]\<rparr> else self\<lparr>limbs := v\<rparr>)"

definition borrow_down :: "u32 \<Rightarrow> BigInteger \<Rightarrow> BigInteger" where
  "borrow_down stray self =
     (case dec_loop (limbs self) 0 of (v, i) \<Rightarrow>
        trimLeadingZeros stray (self\<lparr>limbs := v\<rparr>))"

definition pre_inc :: "u32 \<Rightarrow> BigInteger \<Rightarrow> BigInteger" where
  "pre_inc stray self =
     (if \<not> negative self then carry_up stray self else borrow_down stray self)"

definition pre_dec :: "u32 \<Rightarrow> BigInteger \<Rightarrow> BigInteger" where
  "pre_dec stray self =
     (if \<not> negative self then borrow_down stray self else carry_up stray self)"

text \<open>\<^verbatim>\<open>operator~\<close>: copy, increment, flip the sign flag.\<close>

definition bit_not :: "u32 \<Rightarrow> BigInteger \<Rightarrow> BigInteger" where
  "bit_not stray self =
     (let result = pre_inc stray self
      in result\<lparr>negative := \<not> negative result\<rparr>)"

subsection \<open>Construction from a 64-bit signed integer\<close>

text \<open>
  \<^verbatim>\<open>BigInteger(int64_t value)\<close>: the sign flag is \<open>value < 0\<close>, the first
  limb \<^verbatim>\<open>std::abs(value % base)\<close>, and a second limb
  \<^verbatim>\<open>std::abs(value / base)\<close> is pushed when that quotient is not zero.
  C++ division truncates towards zero (\<open>sdiv\<close>, \<open>smod\<close>). The argument is
  the mathematical value of the \<^verbatim>\<open>int64_t\<close>.
\<close>

definition BigInteger_base :: u64 where
  "BigInteger_base = 4294967296"

definition BigInteger_mod :: u64 where
  "BigInteger_mod = 3221225473"

definition BigInteger_root :: u64 where
  "BigInteger_root = 5"

definition BigInteger_of_int64 :: "int \<Rightarrow> BigInteger" where
  "BigInteger_of_int64 x =
     (let q = x sdiv 4294967296
      in \<lparr>limbs = word_of_int \<bar>x smod 4294967296\<bar> #
                  (if q \<noteq> 0 then [word_of_int \<bar>q\<bar>] else []),
          negative = (x < 0)\<rparr>)"

subsection \<open>Addition and subtraction\<close>

text \<open>
  The equal-sign branch of \<^verbatim>\<open>operator+=\<close>. The iterators \<open>i\<close> (into
  \<open>lhs\<close>) and \<open>j\<close> (into \<open>rhs\<close>) move together, so one index \<open>t\<close>
  stands for both; \<open>c\<close> is the 64-bit \<^verbatim>\<open>value\<close>.
\<close>

function add_loop :: "u32 list \<Rightarrow> u32 list \<Rightarrow> nat \<Rightarrow> u64 \<Rightarrow> u32 list \<times> nat \<times> u64" where
  "add_loop l r t c =
     (if t < length r
      then (let c' = c + ucast (l ! t) + ucast (r ! t)
            in add_loop (l[t := ucast (c' mod BigInteger_base)]) r (t + 1)
                 (c' div BigInteger_base))
      else (l, t, c))"
  by pat_completeness auto
termination
  by (relation "measure (\<lambda>(l, r, t, c). length r - t)") auto

function add_carry_loop :: "u32 list \<Rightarrow> nat \<Rightarrow> u64 \<Rightarrow> u32 list \<times> u64" where
  "add_carry_loop l t c =
     (if c \<noteq> 0 \<and> t < length l
      then (let c' = c + ucast (l ! t)
            in add_carry_loop (l[t := ucast (c' mod BigInteger_base)]) (t + 1)
                 (c' div BigInteger_base))
      else (l, c))"
  by pat_completeness auto
termination
  by (relation "measure (\<lambda>(l, t, c). length l - t)") auto

definition add_magnitudes :: "BigInteger \<Rightarrow> BigInteger \<Rightarrow> BigInteger" where
  "add_magnitudes lhs rhs =
     (let l0 = (if length (limbs lhs) < length (limbs rhs)
                then resize (limbs lhs) (length (limbs rhs)) else limbs lhs)
      in case add_loop l0 (limbs rhs) 0 0 of (l1, t, c1) \<Rightarrow>
         case add_carry_loop l1 t c1 of (l2, c2) \<Rightarrow>
           lhs\<lparr>limbs := (if c2 \<noteq> 0 then l2 @ [ucast c2] else l2)\<rparr>)"

text \<open>
  The equal-sign branch of \<^verbatim>\<open>operator-=\<close>. \<open>c\<close> is the
  \<^verbatim>\<open>int64_t value\<close> as a 64-bit word read in two's complement;
  \<^verbatim>\<open>value < 0 ? value + BigInteger::base : value\<close> is computed in
  \<^verbatim>\<open>uint64_t\<close> and stored into a 32-bit limb.
\<close>

definition borrow_limb :: "u64 \<Rightarrow> u32" where
  "borrow_limb c = ucast (if sint c < 0 then c + BigInteger_base else c)"

definition borrow_next :: "u64 \<Rightarrow> u64" where
  "borrow_next c = (if sint c < 0 then - 1 else 0)"

function sub_loop :: "u32 list \<Rightarrow> u32 list \<Rightarrow> nat \<Rightarrow> u64 \<Rightarrow> u32 list \<times> nat \<times> u64" where
  "sub_loop l r t c =
     (if t < length r
      then (let c' = c + ucast (l ! t) - ucast (r ! t)
            in sub_loop (l[t := borrow_limb c']) r (t + 1) (borrow_next c'))
      else (l, t, c))"
  by pat_completeness auto
termination
  by (relation "measure (\<lambda>(l, r, t, c). length r - t)") auto

function sub_borrow_loop :: "u32 list \<Rightarrow> nat \<Rightarrow> u64 \<Rightarrow> u32 list" where
  "sub_borrow_loop l t c =
     (if c \<noteq> 0 \<and> t < length l
      then (let c' = c + ucast (l ! t)
            in sub_borrow_loop (l[t := borrow_limb c']) (t + 1) (borrow_next c'))
      else l)"
  by pat_completeness auto
termination
  by (relation "measure (\<lambda>(l, t, c). length l - t)") auto

function rsub_loop :: "u32 list \<Rightarrow> u32 list \<Rightarrow> nat \<Rightarrow> u64 \<Rightarrow> u32 list" where
  "rsub_loop l r t c =
     (if t < length r
      then (let c' = c + ucast (r ! t) - ucast (l ! t)
            in rsub_loop (l[t := borrow_limb c']) r (t + 1) (borrow_next c'))
      else l)"
  by pat_completeness auto
termination
  by (relation "measure (\<lambda>(l, r, t, c). length r - t)") auto

definition sub_magnitudes :: "u32 \<Rightarrow> BigInteger \<Rightarrow> BigInteger \<Rightarrow> BigInteger" where
  "sub_magnitudes stray lhs rhs =
     (let l0 = (if length (limbs lhs) < length (limbs rhs)
                then resize (limbs lhs) (length (limbs rhs)) else limbs lhs);
          lhs0 = lhs\<lparr>limbs := l0\<rparr>
      in if greater_op lhs0 rhs \<noteq> negative lhs0
         then (case sub_loop l0 (limbs rhs) 0 0 of (l1, t, c1) \<Rightarrow>
                 trimLeadingZeros stray (lhs0\<lparr>limbs := sub_borrow_loop l1 t c1\<rparr>))
         else trimLeadingZeros stray
                (lhs0\<lparr>negative := \<not> negative lhs0,
                       limbs := rsub_loop l0 (limbs rhs) 0 0\<rparr>))"

text \<open>
  \<^verbatim>\<open>operator+=\<close> and \<^verbatim>\<open>operator-=\<close> call each other when the
  signs differ, after flipping the sign flag of \<open>lhs\<close>
  (\<^verbatim>\<open>lhs.negative ^= 1\<close>).
\<close>

function plus_assign :: "u32 \<Rightarrow> BigInteger \<Rightarrow> BigInteger \<Rightarrow> BigInteger"
  and minus_assign :: "u32 \<Rightarrow> BigInteger \<Rightarrow> BigInteger \<Rightarrow> BigInteger" where
  "plus_assign stray lhs rhs =
     (if negative lhs = negative rhs then add_magnitudes lhs rhs
      else (let l1 = minus_assign stray (lhs\<lparr>negative := \<not> negative lhs\<rparr>) rhs
            in eliminateNegativeZero (l1\<lparr>negative := \<not> negative l1\<rparr>)))"
| "minus_assign stray lhs rhs =
     (if negative lhs = negative rhs then sub_magnitudes stray lhs rhs
      else (let l1 = plus_assign stray (lhs\<lparr>negative := \<not> negative lhs\<rparr>) rhs
            in l1\<lparr>negative := \<not> negative l1\<rparr>))"
  by pat_completeness auto
termination
  by (relation "measure (\<lambda>x. case x of
         Inl (s, l, r) \<Rightarrow> (if negative l = negative r then 0 else 1)
       | Inr (s, l, r) \<Rightarrow> (if negative l = negative r then 0 else 1))") auto

subsection \<open>Modular helpers of the transform\<close>

text \<open>
  \<^verbatim>\<open>modpow_\<close>: a do-while loop over the bits of \<open>expo\<close>, in
  \<^verbatim>\<open>uint64_t\<close>. The base is squared unless \<open>expo\<close> is exactly 1.
\<close>

function modpow_loop :: "u64 \<Rightarrow> u64 \<Rightarrow> u64 \<Rightarrow> u64" where
  "modpow_loop b expo retn =
     (let retn' = (if expo AND 1 \<noteq> 0 then retn * b mod BigInteger_mod else retn);
          b' = (if expo XOR 1 \<noteq> 0 then b * b mod BigInteger_mod else b);
          expo' = drop_bit 1 expo
      in if expo' \<noteq> 0 then modpow_loop b' expo' retn' else retn')"
  by pat_completeness auto
termination
proof (relation "measure (\<lambda>(b, expo, retn). unat expo)")
  show "wf (measure (\<lambda>(b, expo, retn). unat expo))"
    by simp
next
  fix b expo retn :: u64 and retn' b' expo'
  assume e: "expo' = drop_bit 1 expo" and nz: "expo' \<noteq> 0"
  have "unat (drop_bit 1 expo) = unat expo div 2"
    by (simp add: drop_bit_eq_div unat_div)
  moreover have "unat expo \<noteq> 0"
    using e nz by (auto simp: unat_eq_0)
  ultimately show "((b', expo', retn'), (b, expo, retn)) \<in> measure (\<lambda>(b, expo, retn). unat expo)"
    using e by simp
qed

definition modpow :: "u64 \<Rightarrow> u64 \<Rightarrow> u64" where
  "modpow b expo = modpow_loop b expo 1"

text \<open>
  \<^verbatim>\<open>modinv_\<close>: the extended Euclidean algorithm on \<^verbatim>\<open>int64_t\<close>,
  with truncating division. Signed overflow is undefined in C++; the model computes on
  mathematical integers and converts the returned \<open>x + mod\<close> to
  \<^verbatim>\<open>uint64_t\<close>.
\<close>

function modinv_loop :: "int \<Rightarrow> int \<Rightarrow> int \<Rightarrow> int \<Rightarrow> int \<Rightarrow> int \<Rightarrow> int \<Rightarrow> int \<Rightarrow> int" where
  "modinv_loop x y xp yp m n r q =
     (if r \<noteq> 0
      then (let xt = xp - q * x; yt = yp - q * y
            in modinv_loop xt yt x y n r (n smod r) (n sdiv r))
      else x)"
  by pat_completeness auto
termination
proof (relation "measure (\<lambda>(x, y, xp, yp, m, n, r, q). nat \<bar>r\<bar>)")
  show "wf (measure (\<lambda>(x, y, xp, yp, m, n, r, q). nat \<bar>r\<bar>))"
    by simp
next
  fix x y xp yp m n r q xt yt :: int
  assume "r \<noteq> 0"
  then have "\<bar>n smod r\<bar> < \<bar>r\<bar>"
    by (simp add: smod_int_alt_def abs_mult)
  then show "((xt, yt, x, y, n, r, n smod r, n sdiv r), (x, y, xp, yp, m, n, r, q))
      \<in> measure (\<lambda>(x, y, xp, yp, m, n, r, q). nat \<bar>r\<bar>)"
    by simp
qed

definition modinv :: "int \<Rightarrow> int \<Rightarrow> u64" where
  "modinv m n = word_of_int (modinv_loop 0 1 1 0 m n (m smod n) (m sdiv n) + n)"

subsection \<open>The number-theoretic transform\<close>

text \<open>The table of powers: \<^verbatim>\<open>w[i] = i ? w[i - 1] * g % mod : 1\<close>.\<close>

primrec w_table :: "u64 \<Rightarrow> nat \<Rightarrow> u64 list" where
  "w_table g 0 = []"
| "w_table g (Suc i) =
     (let w = w_table g i
      in w @ [if i \<noteq> 0 then w ! (i - 1) * g mod BigInteger_mod else 1])"

text \<open>
  The bit-reversal permutation. \<open>rev_next\<close> is the inner loop
  \<^verbatim>\<open>for (size_t k = n; j < k; j ^= k) k >>= 1;\<close> and returns the new
  \<open>j\<close>.
\<close>

function rev_next :: "nat \<Rightarrow> nat \<Rightarrow> nat" where
  "rev_next k j = (if j < k then rev_next (k div 2) (j XOR (k div 2)) else j)"
  by pat_completeness auto
termination
  by (relation "measure (\<lambda>(k, j). k)") auto

function bitrev_loop :: "nat \<Rightarrow> nat \<Rightarrow> nat \<Rightarrow> u32 list \<Rightarrow> u32 list" where
  "bitrev_loop n i j v =
     (if i < n
      then bitrev_loop n (i + 1) (rev_next n j)
             (if j < i then v[i := v ! j, j := v ! i] else v)
      else v)"
  by pat_completeness auto
termination
  by (relation "measure (\<lambda>(n, i, j, v). n - i)") auto

text \<open>
  One pass of the innermost loop body: \<open>z\<close> is computed in
  \<^verbatim>\<open>uint64_t\<close>, the limb at \<open>i + j + k\<close> is written first, then the limb
  at \<open>j + k\<close>.
\<close>

definition butterfly :: "u64 list \<Rightarrow> nat \<Rightarrow> nat \<Rightarrow> nat \<Rightarrow> nat \<Rightarrow> u32 list \<Rightarrow> u32 list" where
  "butterfly w i I j k v =
     (let z = ucast (v ! (i + j + k)) * w ! (I * k) mod BigInteger_mod;
          v1 = (if ucast (v ! (j + k)) < z
                then v[i + j + k := ucast (ucast (v ! (j + k)) + BigInteger_mod - z)]
                else v[i + j + k := ucast (ucast (v ! (j + k)) - z)])
      in if ucast (v1 ! (j + k)) + z < BigInteger_mod
         then v1[j + k := ucast (ucast (v1 ! (j + k)) + z)]
         else v1[j + k := ucast (ucast (v1 ! (j + k)) + z - BigInteger_mod)])"

function ntt_k :: "u64 list \<Rightarrow> nat \<Rightarrow> nat \<Rightarrow> nat \<Rightarrow> nat \<Rightarrow> u32 list \<Rightarrow> u32 list" where
  "ntt_k w i I j k v =
     (if k < i then ntt_k w i I j (k + 1) (butterfly w i I j k v) else v)"
  by pat_completeness auto
termination
  by (relation "measure (\<lambda>(w, i, I, j, k, v). i - k)") auto

text \<open>
  \<^verbatim>\<open>for (size_t j = 0; j != n; j += i << 1)\<close>. When \<open>j \<noteq> n\<close> and the
  block \<open>j, \<dots>, j + 2 i - 1\<close> does not fit in the vector, the inner loop indexes
  outside the vector, and when \<open>i = 0\<close> the loop does not advance: both are \<open>None\<close>.
\<close>

function ntt_j :: "u64 list \<Rightarrow> nat \<Rightarrow> nat \<Rightarrow> nat \<Rightarrow> nat \<Rightarrow> u32 list \<Rightarrow> u32 list option" where
  "ntt_j w n i I j v =
     (if j = n then Some v
      else if i = 0 \<or> n < j + 2 * i then None
      else ntt_j w n i I (j + 2 * i) (ntt_k w i I j 0 v))"
  by pat_completeness auto
termination
  by (relation "measure (\<lambda>(w, n, i, I, j, v). n - j)") auto

text \<open>\<^verbatim>\<open>for (size_t i = 1, I = n >> 1; I; i <<= 1, I >>= 1)\<close>.\<close>

function ntt_i :: "u64 list \<Rightarrow> nat \<Rightarrow> nat \<Rightarrow> nat \<Rightarrow> u32 list \<Rightarrow> u32 list option" where
  "ntt_i w n i I v =
     (if I \<noteq> 0
      then (case ntt_j w n i I 0 v of
              None \<Rightarrow> None
            | Some v' \<Rightarrow> ntt_i w n (2 * i) (I div 2) v')
      else Some v)"
  by pat_completeness auto
termination
  by (relation "measure (\<lambda>(w, n, i, I, v). I)") auto

text \<open>
  \<^verbatim>\<open>NTT_(logN, inverse)\<close> on the limb vector. For the inverse transform the
  table is reversed from its second entry on and every limb is multiplied by
  \<^verbatim>\<open>modinv_(n, mod)\<close> first.
\<close>

definition NTT :: "u32 list \<Rightarrow> nat \<Rightarrow> bool \<Rightarrow> u32 list option" where
  "NTT v logN invert =
     (let n = length v;
          g = modpow BigInteger_root (drop_bit logN BigInteger_mod);
          w0 = w_table g n;
          w = (if invert then take 1 w0 @ rev (drop 1 w0) else w0);
          v0 = (if invert
                then (let ninv = modinv (int n) (uint BigInteger_mod)
                      in map (\<lambda>x. ucast (ucast x * ninv mod BigInteger_mod)) v)
                else v)
      in ntt_i w n 1 (n div 2) (bitrev_loop n 0 0 v0))"

subsection \<open>Multiplication\<close>

text \<open>\<^verbatim>\<open>while (static_cast<size_t>(1) << logN < size << 1) ++logN;\<close>\<close>

function find_logN :: "nat \<Rightarrow> nat \<Rightarrow> nat" where
  "find_logN sz logN = (if 2 ^ logN < 2 * sz then find_logN sz (logN + 1) else logN)"
  by pat_completeness auto
termination
  by (relation "measure (\<lambda>(sz, logN). 2 * sz - 2 ^ logN)") (auto intro!: diff_less_mono2)

text \<open>
  \<^verbatim>\<open>operator*=\<close>. \<open>r\<close> is a copy of \<open>rhs\<close>. \<open>times_limbs\<close> is
  the limb vector of \<open>l\<close> after the inverse transform; the sign flag of \<open>lhs\<close>
  is written only by the final \<^verbatim>\<open>trimLeadingZeros_\<close>.
\<close>

definition pointwise :: "u32 list \<Rightarrow> u32 list \<Rightarrow> u32 list" where
  "pointwise l r = map (\<lambda>(a, b). ucast (ucast a * ucast b mod BigInteger_mod)) (zip l r)"

definition times_limbs :: "BigInteger \<Rightarrow> BigInteger \<Rightarrow> u32 list option" where
  "times_limbs lhs rhs =
     (let sz = max (length (limbs lhs)) (length (limbs rhs));
          logN = find_logN sz 0;
          n = 2 ^ logN
      in case NTT (resize (limbs lhs) n) logN False of
           None \<Rightarrow> None
         | Some l1 \<Rightarrow>
             (case NTT (resize (limbs rhs) n) logN False of
                None \<Rightarrow> None
              | Some r1 \<Rightarrow> NTT (pointwise l1 r1) logN True))"

definition times_assign :: "u32 \<Rightarrow> BigInteger \<Rightarrow> BigInteger \<Rightarrow> BigInteger option" where
  "times_assign stray lhs rhs =
     (case times_limbs lhs rhs of
        None \<Rightarrow> None
      | Some l2 \<Rightarrow> Some (trimLeadingZeros stray (lhs\<lparr>limbs := l2\<rparr>)))"

section \<open>Decimal text input and output\<close>

subsection \<open>The input stream\<close>

text \<open>
  The part of \<^verbatim>\<open>std::istream\<close> the class uses, after the C++11 standard:
  the buffered characters, the get position, the three state bits and the three bits of
  the \<^verbatim>\<open>exceptions()\<close> mask. An input function called on a stream that is
  not good sets \<open>failbit\<close> and reads nothing; reading at the end sets \<open>eofbit\<close>.
  \<open>None\<close> stands for \<^verbatim>\<open>traits::eof()\<close>.
\<close>

record istream =
  buf :: string
  gpos :: nat
  eofbit :: bool
  failbit :: bool
  badbit :: bool
  exc_eofbit :: bool
  exc_failbit :: bool
  exc_badbit :: bool

definition good :: "istream \<Rightarrow> bool" where
  "good s = (\<not> eofbit s \<and> \<not> failbit s \<and> \<not> badbit s)"

text \<open>
  Every change of the state goes through \<^verbatim>\<open>basic_ios::clear\<close>, which ends
  with \<^verbatim>\<open>if ((rdstate() & exceptions()) != 0) throw failure\<close>. \<open>ios_clear\<close>
  is that last step on the stream with its new state: \<open>Inl s\<close> says that
  \<^verbatim>\<open>ios_base::failure\<close> was thrown and left the stream as \<open>s\<close>, \<open>Inr\<close>
  is a normal return. The input functions do not catch this exception.
\<close>

definition raises :: "istream \<Rightarrow> bool" where
  "raises s =
     ((eofbit s \<and> exc_eofbit s) \<or> (failbit s \<and> exc_failbit s) \<or> (badbit s \<and> exc_badbit s))"

definition ios_clear :: "istream \<Rightarrow> istream + istream" where
  "ios_clear s = (if raises s then Inl s else Inr s)"

text \<open>The streams with an empty \<^verbatim>\<open>exceptions()\<close> mask, which never throw.\<close>

definition no_exceptions :: "istream \<Rightarrow> bool" where
  "no_exceptions s = (\<not> exc_eofbit s \<and> \<not> exc_failbit s \<and> \<not> exc_badbit s)"

definition is_peek :: "istream \<Rightarrow> istream + char option \<times> istream" where
  "is_peek s =
     (if \<not> good s
      then (case ios_clear (s\<lparr>failbit := True\<rparr>) of
              Inl e \<Rightarrow> Inl e | Inr s1 \<Rightarrow> Inr (None, s1))
      else if gpos s < length (buf s) then Inr (Some (buf s ! gpos s), s)
      else (case ios_clear (s\<lparr>eofbit := True\<rparr>) of
              Inl e \<Rightarrow> Inl e | Inr s1 \<Rightarrow> Inr (None, s1)))"

definition is_get :: "istream \<Rightarrow> istream + char option \<times> istream" where
  "is_get s =
     (if \<not> good s
      then (case ios_clear (s\<lparr>failbit := True\<rparr>) of
              Inl e \<Rightarrow> Inl e | Inr s1 \<Rightarrow> Inr (None, s1))
      else if gpos s < length (buf s)
      then Inr (Some (buf s ! gpos s), s\<lparr>gpos := gpos s + 1\<rparr>)
      else (case ios_clear (s\<lparr>eofbit := True, failbit := True\<rparr>) of
              Inl e \<Rightarrow> Inl e | Inr s1 \<Rightarrow> Inr (None, s1)))"

text \<open>
  \<^verbatim>\<open>unget()\<close> clears \<open>eofbit\<close> first (a call of \<^verbatim>\<open>clear\<close>); at
  the start of the buffer it sets \<open>badbit\<close>.
\<close>

definition is_unget :: "istream \<Rightarrow> istream + istream" where
  "is_unget s =
     (case ios_clear (s\<lparr>eofbit := False\<rparr>) of
        Inl e \<Rightarrow> Inl e
      | Inr s1 \<Rightarrow>
          if \<not> good s1 then ios_clear (s1\<lparr>failbit := True\<rparr>)
          else if gpos s1 = 0 then ios_clear (s1\<lparr>badbit := True\<rparr>)
          else Inr (s1\<lparr>gpos := gpos s1 - 1\<rparr>))"

text \<open>\<^verbatim>\<open>is.clear(std::ios::failbit)\<close> makes \<open>failbit\<close> the whole state.\<close>

definition is_clear_failbit :: "istream \<Rightarrow> istream + istream" where
  "is_clear_failbit s = ios_clear (s\<lparr>eofbit := False, failbit := True, badbit := False\<rparr>)"

definition isspace :: "char \<Rightarrow> bool" where
  "isspace c = (c = CHR '' '' \<or> ((9::nat) \<le> of_char c \<and> of_char c \<le> (13::nat)))"

definition isdigit :: "char option \<Rightarrow> bool" where
  "isdigit c = (case c of None \<Rightarrow> False
                | Some d \<Rightarrow> (48::nat) \<le> of_char d \<and> of_char d \<le> (57::nat))"

text \<open>
  \<^verbatim>\<open>is >> cursor\<close> for a \<^verbatim>\<open>char\<close>: white space is skipped, then one
  character is taken. When nothing can be read the variable keeps its old content
  \<open>old\<close>.
\<close>

definition is_read_char :: "char \<Rightarrow> istream \<Rightarrow> istream + char \<times> istream" where
  "is_read_char old s =
     (if \<not> good s
      then (case ios_clear (s\<lparr>failbit := True\<rparr>) of
              Inl e \<Rightarrow> Inl e | Inr s1 \<Rightarrow> Inr (old, s1))
      else (let p = gpos s + length (takeWhile isspace (drop (gpos s) (buf s)))
            in if p < length (buf s) then Inr (buf s ! p, s\<lparr>gpos := p + 1\<rparr>)
               else (case ios_clear (s\<lparr>gpos := p, eofbit := True, failbit := True\<rparr>) of
                       Inl e \<Rightarrow> Inl e | Inr s1 \<Rightarrow> Inr (old, s1))))"

subsection \<open>Reading decimal digits\<close>

text \<open>\<^verbatim>\<open>while (is.peek() == '0') is.get();\<close>\<close>

function skip_zeros :: "istream \<Rightarrow> istream + istream" where
  "skip_zeros s =
     (case is_peek s of
        Inl e \<Rightarrow> Inl e
      | Inr (c, s1) \<Rightarrow>
          if c = Some CHR ''0''
          then (case is_get s1 of Inl e \<Rightarrow> Inl e | Inr (d, s2) \<Rightarrow> skip_zeros s2)
          else Inr s1)"
  by pat_completeness auto
termination
  by (relation "measure (\<lambda>s. length (buf s) - gpos s)")
    (auto simp: is_peek_def is_get_def ios_clear_def split: if_splits)

text \<open>
  The digit loop: \<open>val\<close> and \<open>logLen\<close> are the \<^verbatim>\<open>uint64_t\<close> locals,
  \<open>decimal\<close> the vector of nine-digit groups, most significant group first.
\<close>

definition int_of_get :: "char option \<Rightarrow> u64" where
  "int_of_get c = (case c of None \<Rightarrow> - 1 | Some d \<Rightarrow> of_nat (of_char d))"

function read_digits ::
  "istream \<Rightarrow> u64 \<Rightarrow> u64 \<Rightarrow> u32 list \<Rightarrow> istream + istream \<times> u64 \<times> u64 \<times> u32 list" where
  "read_digits s val logLen decimal =
     (case is_peek s of
        Inl e \<Rightarrow> Inl e
      | Inr (c, s1) \<Rightarrow>
          if isdigit c
          then (case is_get s1 of
                  Inl e \<Rightarrow> Inl e
                | Inr (cursor, s2) \<Rightarrow>
                    (let val' = val * 10 + int_of_get cursor - 48;
                         logLen' = logLen + 1
                     in if logLen' = 9 then read_digits s2 0 0 (decimal @ [ucast val'])
                        else read_digits s2 val' logLen' decimal))
          else Inr (s1, val, logLen, decimal))"
  by pat_completeness auto
termination
  by (relation "measure (\<lambda>(s, val, logLen, decimal). length (buf s) - gpos s)")
    (auto simp: is_peek_def is_get_def ios_clear_def isdigit_def split: if_splits)

definition pow10 :: "nat \<Rightarrow> u64" where
  "pow10 i = [1, 10, 100, 1000, 10000, 100000, 1000000, 10000000, 100000000, 1000000000] ! i"

text \<open>
  The adjusting pass walks the groups with two reverse iterators, \<open>prev\<close> one step
  behind \<open>next\<close>. \<open>align_rev\<close> runs on the reversed vector, whose head is the
  group \<open>prev\<close> stands on.
\<close>

fun align_rev :: "u64 \<Rightarrow> u64 \<Rightarrow> u32 list \<Rightarrow> u32 list" where
  "align_rev shift len (p # n # rest) =
     ucast (ucast p + ucast n mod shift * len) #
       align_rev shift len (ucast (ucast n div shift) # rest)"
| "align_rev shift len ps = ps"

text \<open>
  The conversion to base \<open>2 ^ 32\<close>. \<open>conv_div\<close> is the inner loop over the groups
  from \<open>head\<close> to the end, \<open>conv_outer\<close> the outer loop on the groups from
  \<open>head\<close> on (the groups before \<open>head\<close> are not read again).
\<close>

fun conv_div :: "u32 list \<Rightarrow> u64 \<Rightarrow> u32 list \<times> u64" where
  "conv_div [] val = ([], val)"
| "conv_div (x # xs) val =
     (let v1 = val * pow10 9 + ucast x
      in case conv_div xs (v1 mod BigInteger_base) of
           (ys, r) \<Rightarrow> (ucast (v1 div BigInteger_base) # ys, r))"

lemma length_conv_div: "length (fst (conv_div xs val)) = length xs"
  by (induction xs arbitrary: val) (auto simp: Let_def split: prod.splits, metis fst_conv)

function conv_outer :: "u32 list \<Rightarrow> u32 list \<Rightarrow> u32 list" where
  "conv_outer [] out = out"
| "conv_outer [x] out = (if x \<noteq> 0 then out @ [x] else out)"
| "conv_outer (x # y # ys) out =
     (case conv_div (y # ys) (ucast x) of
        (zs, r) \<Rightarrow> conv_outer zs (out @ [ucast r]))"
  by pat_completeness auto
termination
proof (relation "measure (\<lambda>(d, out). length d)")
  show "wf (measure (\<lambda>(d, out). length d))"
    by simp
next
  fix x y :: u32 and ys out zs :: "u32 list" and r :: u64
  assume "(zs, r) = conv_div (y # ys) (ucast x)"
  then have "length zs = length (y # ys)"
    using length_conv_div [of "y # ys" "ucast x"] by (metis fst_conv)
  then show "((zs, out @ [ucast r]), (x # y # ys, out)) \<in> measure (\<lambda>(d, out). length d)"
    by simp
qed

text \<open>
  \<^verbatim>\<open>getDec_\<close>: the vector is cleared first, so the limbs are those pushed by
  the conversion, and an exception thrown by the stream while the digits are read
  leaves the value without limbs. \<open>Inl (s, x)\<close> says that
  \<^verbatim>\<open>ios_base::failure\<close> was thrown and left the stream as \<open>s\<close> and the value as
  \<open>x\<close>.
\<close>

definition getDec :: "istream \<Rightarrow> BigInteger \<Rightarrow> istream \<times> BigInteger + istream \<times> BigInteger" where
  "getDec s self =
     (let self0 = self\<lparr>limbs := []\<rparr>
      in case is_peek s of
           Inl e \<Rightarrow> Inl (e, self0)
         | Inr (c, s1) \<Rightarrow>
             if \<not> isdigit c
             then (let zero = self\<lparr>limbs := [0], negative := False\<rparr>
                   in case is_clear_failbit s1 of
                        Inl e \<Rightarrow> Inl (e, zero) | Inr s2 \<Rightarrow> Inr (s2, zero))
             else (case skip_zeros s1 of
                     Inl e \<Rightarrow> Inl (e, self0)
                   | Inr s2 \<Rightarrow>
                       (case read_digits s2 0 0 [] of
                          Inl e \<Rightarrow> Inl (e, self0)
                        | Inr (s3, val, logLen, decimal) \<Rightarrow>
                            (let decimal1 =
                                   (if logLen \<noteq> 0
                                    then rev (align_rev (pow10 (9 - unat logLen))
                                                (pow10 (unat logLen))
                                                (rev (decimal @ [ucast val])))
                                    else decimal)
                             in if decimal1 = []
                                then Inr (s3, self\<lparr>limbs := [0], negative := False\<rparr>)
                                else Inr (s3, self\<lparr>limbs := conv_outer decimal1 []\<rparr>)))))"

subsection \<open>Stream extraction\<close>

datatype basefield = Dec | Hex | Oct | NoBase

text \<open>
  \<^verbatim>\<open>operator>>\<close>. \<open>junk\<close> is the content of the uninitialised local
  \<^verbatim>\<open>cursor\<close>. The sign flag is cleared before the first read, so it is cleared
  in the value an exception leaves behind. Only the decimal case reads a number; the
  others are empty in the source.
\<close>

definition extract_op ::
  "char \<Rightarrow> basefield \<Rightarrow> istream \<Rightarrow> BigInteger \<Rightarrow> istream \<times> BigInteger + istream \<times> BigInteger" where
  "extract_op junk fmt s self =
     (let self0 = self\<lparr>negative := False\<rparr>
      in case is_read_char junk s of
           Inl e \<Rightarrow> Inl (e, self0)
         | Inr (cursor, s1) \<Rightarrow>
             (let has_sign = (cursor = CHR ''-'' \<or> cursor = CHR ''+'');
                  self1 = self\<lparr>negative := (has_sign \<and> cursor = CHR ''-'')\<rparr>
              in case (if has_sign then is_get s1 else Inr (Some cursor, s1)) of
                   Inl e \<Rightarrow> Inl (e, self1)
                 | Inr (c, s2) \<Rightarrow>
                     (case is_unget s2 of
                        Inl e \<Rightarrow> Inl (e, self1)
                      | Inr s3 \<Rightarrow>
                          (case fmt of Dec \<Rightarrow> getDec s3 self1 | _ \<Rightarrow> Inr (s3, self1)))))"

subsection \<open>Writing decimal digits\<close>

text \<open>
  \<^verbatim>\<open>os << x\<close> for a \<^verbatim>\<open>uint32_t\<close> on a decimal stream: the decimal
  digits of \<open>x\<close>, without padding.
\<close>

definition digit_char :: "nat \<Rightarrow> char" where
  "digit_char d = char_of (48 + d)"

fun dec_string :: "nat \<Rightarrow> string" where
  "dec_string n =
     (if n < 10 then [digit_char n] else dec_string (n div 10) @ [digit_char (n mod 10)])"

definition put_u32 :: "u32 \<Rightarrow> string" where
  "put_u32 x = dec_string (unat x)"

text \<open>
  One division pass of \<^verbatim>\<open>putDec_\<close> over the reverse range from \<open>head\<close> to
  \<^verbatim>\<open>rend()\<close>, given as a list with the most significant limb first.
\<close>

fun pd_div :: "u32 list \<Rightarrow> u64 \<Rightarrow> u32 list \<times> u64" where
  "pd_div [] val = ([], val)"
| "pd_div (x # xs) val =
     (let v1 = val * BigInteger_base OR ucast x
      in case pd_div xs (v1 mod pow10 9) of
           (ys, r) \<Rightarrow> (ucast (v1 div pow10 9) # ys, r))"

lemma length_pd_div: "length (fst (pd_div xs val)) = length xs"
  by (induction xs arbitrary: val) (auto simp: Let_def split: prod.splits, metis fst_conv)

lemma unat_hd_pd_div: "unat (hd (fst (pd_div (x # xs) 0))) = unat x div 1000000000"
proof -
  have "hd (fst (pd_div (x # xs) 0)) = ucast ((ucast x :: u64) div pow10 9)"
    by (simp add: Let_def split: prod.splits)
  moreover have "unat ((ucast x :: u64) div pow10 9) = unat x div 1000000000"
    by (simp add: pow10_def unat_div unsigned_ucast_eq take_bit_nat_eq_self
        order_less_trans [OF unsigned_less])
  moreover have "unat x div 1000000000 < 2 ^ 32"
    by (rule le_less_trans [OF div_le_dividend]) (use unsigned_less [of x] in simp)
  ultimately show ?thesis
    by (simp add: unsigned_ucast_eq take_bit_nat_eq_self)
qed

text \<open>
  The outer loop: it ends when \<open>head\<close> stands on the least significant limb;
  \<^verbatim>\<open>if (!*head) ++head;\<close> drops a most significant limb that became zero.
  The result is the last limb and the groups of nine digits, least significant first.
\<close>

function pd_outer :: "u32 list \<Rightarrow> u32 list \<Rightarrow> u32 \<times> u32 list" where
  "pd_outer [] decimal = (0, decimal)"
| "pd_outer [x] decimal = (x, decimal)"
| "pd_outer (x # y # ys) decimal =
     (case pd_div (x # y # ys) 0 of
        (zs, r) \<Rightarrow> pd_outer (if hd zs = 0 then tl zs else zs) (decimal @ [ucast r]))"
  by pat_completeness auto
termination
proof (relation "measures [\<lambda>(b, decimal). length b, \<lambda>(b, decimal). unat (hd b)]")
  show "wf (measures [\<lambda>(b, decimal). length b, \<lambda>(b, decimal). unat (hd b)])"
    by simp
next
  fix x y :: u32 and ys decimal zs :: "u32 list" and r :: u64
  assume a: "(zs, r) = pd_div (x # y # ys) 0"
  have zs: "zs = fst (pd_div (x # y # ys) 0)"
    using a by (metis fst_conv)
  have len: "length zs = length (x # y # ys)"
    unfolding zs by (rule length_pd_div)
  have hd: "unat (hd zs) = unat x div 1000000000"
    unfolding zs by (rule unat_hd_pd_div)
  have lt: "unat (hd zs) < unat x" if nz: "hd zs \<noteq> 0"
  proof -
    have "unat (hd zs) \<noteq> 0"
      using nz by (simp add: unat_eq_0)
    then show ?thesis
      unfolding hd by (metis div_less_dividend div_0 neq0_conv one_less_numeral_iff semiring_norm(76))
  qed
  show "((if hd zs = 0 then tl zs else zs, decimal @ [ucast r]), (x # y # ys, decimal))
      \<in> measures [\<lambda>(b, decimal). length b, \<lambda>(b, decimal). unat (hd b)]"
    using len lt by (cases zs) auto
qed

text \<open>
  The padding loop
  \<^verbatim>\<open>for (j = logBase - 1; j != 0; --j) if (*i < pow10[j]) os.put('0'); else break;\<close>
\<close>

fun pad_zeros :: "u32 \<Rightarrow> nat \<Rightarrow> string" where
  "pad_zeros x 0 = []"
| "pad_zeros x (Suc j) =
     (if ucast x < pow10 (Suc j) then CHR ''0'' # pad_zeros x j else [])"

text \<open>
  \<^verbatim>\<open>putDec_\<close> returns the characters written. A vector without limbs makes the
  iterators leave the vector: \<open>None\<close>.
\<close>

definition putDec :: "BigInteger \<Rightarrow> string option" where
  "putDec self =
     (if limbs self = [] then None
      else if length (limbs self) = 1 \<and> hd (limbs self) = 0 then Some ''0''
      else (case pd_outer (rev (limbs self)) [] of
              (h, decimal0) \<Rightarrow>
                (let decimal = (if h \<noteq> 0 then decimal0 @ [h] else decimal0)
                 in if decimal = [] then None
                    else Some (put_u32 (last decimal) @
                           concat (map (\<lambda>x. pad_zeros x 8 @ put_u32 x) (rev (butlast decimal)))))))"

text \<open>\<^verbatim>\<open>operator<<\<close>: a minus sign for a set sign flag, then the digits.\<close>

definition insert_op :: "basefield \<Rightarrow> BigInteger \<Rightarrow> string option" where
  "insert_op fmt self =
     (let sign = (if negative self then [CHR ''-''] else [])
      in case fmt of
           Dec \<Rightarrow> (case putDec self of None \<Rightarrow> None | Some t \<Rightarrow> Some (sign @ t))
         | _ \<Rightarrow> Some sign)"

section \<open>The ordering of the specification\<close>

text \<open>
  The data model's comparison of magnitudes, in the words of the specification:
  lexicographic on the limb sequences read from the most significant limb, a longer
  normalised sequence being the larger; the order is reversed when both values are
  negative.
\<close>

fun lex_less :: "u32 list \<Rightarrow> u32 list \<Rightarrow> bool" where
  "lex_less (x # xs) (y # ys) = (x < y \<or> (x = y \<and> lex_less xs ys))"
| "lex_less [] (y # ys) = True"
| "lex_less xs [] = False"

definition mag_less :: "u32 list \<Rightarrow> u32 list \<Rightarrow> bool" where
  "mag_less a b =
     (length a < length b \<or> (length a = length b \<and> lex_less (rev a) (rev b)))"

definition spec_less :: "BigInteger \<Rightarrow> BigInteger \<Rightarrow> bool" where
  "spec_less a b =
     (if negative a then mag_less (limbs b) (limbs a) else mag_less (limbs a) (limbs b))"

section \<open>Input text\<close>

text \<open>
  A fresh stream on a text (no state bit set, an empty \<^verbatim>\<open>exceptions()\<close> mask,
  as a new \<^verbatim>\<open>std::istringstream\<close> has), and the token a number is read from: white space is skipped,
  one sign character is taken when present, and the token runs to the next white space.
\<close>

definition stream_of :: "string \<Rightarrow> istream" where
  "stream_of t =
     \<lparr>buf = t, gpos = 0, eofbit = False, failbit = False, badbit = False,
      exc_eofbit = False, exc_failbit = False, exc_badbit = False\<rparr>"



section \<open>The canonical decimal form of the specification\<close>

text \<open>
  The canonical form of a decimal string, in the words of the specification: the sign
  character is taken off, leading zeros are dropped; the value zero is written \<open>0\<close>,
  and a minus sign stands only before a negative value that is not zero.
\<close>

definition canonical_form :: "string \<Rightarrow> string" where
  "canonical_form s =
     (let digits = dropWhile (\<lambda>c. c = CHR ''0'')
                     (case s of [] \<Rightarrow> [] | c # cs \<Rightarrow> if c = CHR ''-'' \<or> c = CHR ''+'' then cs else s)
      in if digits = [] then ''0''
         else if take 1 s = ''-'' then CHR ''-'' # digits
         else digits)"

section \<open>Notions for the analysis of the decimal conversion\<close>

text \<open>The value of a decimal digit and of a string of decimal digits.\<close>

definition digit_val :: "char \<Rightarrow> nat" where
  "digit_val c = of_char c - 48"

primrec digits_value :: "string \<Rightarrow> nat" where
  "digits_value [] = 0"
| "digits_value (c # cs) = digit_val c * 10 ^ length cs + digits_value cs"

text \<open>
  The number a vector stands for in base \<open>b\<close>, least significant element first:
  limbs with \<open>b = 2 ^ 32\<close>, groups of nine digits with \<open>b = 10 ^ 9\<close>.
\<close>

primrec le_value :: "nat \<Rightarrow> 'a::len word list \<Rightarrow> nat" where
  "le_value b [] = 0"
| "le_value b (x # xs) = unat x + b * le_value b xs"

text \<open>The \<open>k\<close> lowest decimal digits of a number, padded with zeros.\<close>

primrec fixed_digits :: "nat \<Rightarrow> nat \<Rightarrow> string" where
  "fixed_digits 0 r = []"
| "fixed_digits (Suc k) r = fixed_digits k (r div 10) @ [digit_char (r mod 10)]"


section \<open>Notions for the analysis of the transform\<close>

text \<open>The modulus \<^verbatim>\<open>BigInteger::mod\<close> as a natural number.\<close>

abbreviation (input) modP :: nat where "modP \<equiv> 3221225473"

text \<open>
  The residues modulo \<^verbatim>\<open>BigInteger::mod\<close>, and the residue that a machine
  word stands for.
\<close>

type_synonym Zp = "3221225473"

definition val :: "'a::len word \<Rightarrow> Zp" where
  "val x = of_nat (unat x)"

text \<open>
  \<open>brev s i\<close> reverses the lowest \<open>s\<close> bits of \<open>i\<close>: the position the loop
  \<^verbatim>\<open>for (size_t i = 0, j = 0; i != n; ++i)\<close> of \<^verbatim>\<open>NTT_\<close> swaps
  \<open>i\<close> with.
\<close>

fun brev :: "nat \<Rightarrow> nat \<Rightarrow> nat" where
  "brev 0 i = 0"
| "brev (Suc s) i = (i mod 2) * 2 ^ s + brev s (i div 2)"

declare brev.simps(2) [simp del]

text \<open>
  The three values of the innermost loop body of \<^verbatim>\<open>NTT_\<close>, as functions of
  the two limbs \<open>a = value[j + k]\<close>, \<open>b = value[i + j + k]\<close> and of the table entry
  \<open>W = w[I * k]\<close>: the product \<open>z\<close>, and the new limbs at \<open>i + j + k\<close> and at
  \<open>j + k\<close>.
\<close>

definition bf_z :: "u32 \<Rightarrow> u64 \<Rightarrow> u64" where
  "bf_z b W = ucast b * W mod BigInteger_mod"

definition bf_hi :: "u32 \<Rightarrow> u32 \<Rightarrow> u64 \<Rightarrow> u32" where
  "bf_hi a b W =
     (if ucast a < bf_z b W then ucast (ucast a + BigInteger_mod - bf_z b W)
      else ucast (ucast a - bf_z b W))"

definition bf_lo :: "u32 \<Rightarrow> u32 \<Rightarrow> u64 \<Rightarrow> u32" where
  "bf_lo a b W =
     (if ucast a + bf_z b W < BigInteger_mod then ucast (ucast a + bf_z b W)
      else ucast (ucast a + bf_z b W - BigInteger_mod))"

text \<open>The vector after one pass of the outermost loop with block half-width \<open>i\<close>.\<close>

definition stage :: "u64 list \<Rightarrow> nat \<Rightarrow> nat \<Rightarrow> u32 list \<Rightarrow> u32 list" where
  "stage w i I v =
     map (\<lambda>idx. if even (idx div i)
                 then bf_lo (v ! idx) (v ! (idx + i)) (w ! (I * (idx mod i)))
                 else bf_hi (v ! (idx - i)) (v ! idx) (w ! (I * (idx mod i))))
       [0..<length v]"

text \<open>
  The invariant of the outermost loop after \<open>s\<close> passes on the bit-reversed
  vector \<open>y0\<close>: every block of width \<open>2 ^ s\<close> holds the transform of its block of
  \<open>y0\<close>. A table is good for \<open>\<omega>\<close> when its entries are the reduced powers of
  \<open>\<omega>\<close>.
\<close>

definition ntt_inv :: "nat \<Rightarrow> Zp \<Rightarrow> u32 list \<Rightarrow> nat \<Rightarrow> u32 list \<Rightarrow> bool" where
  "ntt_inv K \<omega> y0 s y =
     (length y = 2 ^ K \<and> (\<forall>idx<2 ^ K. unat (y ! idx) < modP) \<and>
      (\<forall>b<2 ^ (K - s). \<forall>k<2 ^ s.
         val (y ! (2 ^ s * b + k)) =
           (\<Sum>u<2 ^ s. val (y0 ! (2 ^ s * b + brev s u)) * (\<omega> ^ (2 ^ (K - s))) ^ (u * k))))"

definition good_table :: "nat \<Rightarrow> Zp \<Rightarrow> u64 list \<Rightarrow> bool" where
  "good_table K \<omega> w = (\<forall>t<2 ^ K. unat (w ! t) < modP \<and> val (w ! t) = \<omega> ^ t)"


section \<open>Properties\<close>

declare trim_scan.simps [simp del] trim_reads.simps [simp del] inc_loop.simps [simp del]
  dec_loop.simps [simp del] add_loop.simps [simp del] add_carry_loop.simps [simp del]
  sub_loop.simps [simp del] sub_borrow_loop.simps [simp del] rsub_loop.simps [simp del]
  plus_assign.simps [simp del] minus_assign.simps [simp del] modpow_loop.simps [simp del]
  modinv_loop.simps [simp del] rev_next.simps [simp del] bitrev_loop.simps [simp del]
  ntt_k.simps [simp del] ntt_j.simps [simp del] ntt_i.simps [simp del]
  find_logN.simps [simp del] skip_zeros.simps [simp del] read_digits.simps [simp del]
  dec_string.simps [simp del]

subsection \<open>Normalisation and the word past the end\<close>

lemma trim_scan_stray:
  "stray \<noteq> 0 \<Longrightarrow> trim_scan v stray (length v) = length v"
  by (simp add: trim_scan.simps [of v stray "length v"] rd_def)

lemma trimLeadingZeros_stray:
  "stray \<noteq> 0 \<Longrightarrow>
   trimLeadingZeros stray b = eliminateNegativeZero (b\<lparr>limbs := limbs b @ [0]\<rparr>)"
  by (simp add: trimLeadingZeros_def trim_scan_stray resize_def)

lemma negative_trimLeadingZeros:
  "negative (trimLeadingZeros stray b) \<Longrightarrow> negative b"
  by (simp add: trimLeadingZeros_def eliminateNegativeZero_def Let_def split: if_splits)

lemma eq_op_limbs: "eq_op a b \<Longrightarrow> limbs a = limbs b"
  by (simp add: eq_op_def list_all2_eq split: if_splits)

text \<open>
  Claim C8 (\<^verbatim>\<open>trimLeadingZeros_\<close> reads only limbs of the vector and leaves a
  non-empty vector without most significant zero limbs). The first limb the loop reads is
  the one at index \<open>size()\<close>, which is outside every vector; on the one-limb vector
  \<open>[1]\<close>, when the word found there is not zero, the vector grows to \<open>[1, 0]\<close>.
\<close>

theorem trimLeadingZeros_reads_past_end:
  "hd (trim_reads v stray (length v)) = length v
   \<and> limbs (trimLeadingZeros 1 \<lparr>limbs = [1], negative = False\<rparr>) = [1, 0]"
  by (simp add: trim_reads.simps [of v stray "length v"] trimLeadingZeros_stray
      eliminateNegativeZero_def)

subsection \<open>Comparison\<close>

text \<open>
  Claim C3 (\<^verbatim>\<open>operator<\<close> orders two normalised values of equal sign by
  magnitude, lexicographically from the most significant limb). For
  \<open>5 + 1 \<cdot> 2\<^sup>3\<^sup>2\<close> and \<open>3 + 2 \<cdot> 2\<^sup>3\<^sup>2\<close> the ordering of the
  specification holds and \<^verbatim>\<open>operator<\<close> answers false:
  \<^verbatim>\<open>std::equal\<close> with \<^verbatim>\<open>std::less\<close> asks for every limb to be smaller.
\<close>

theorem less_op_not_lexicographic:
  "normalized \<lparr>limbs = [5, 1], negative = False\<rparr>
   \<and> normalized \<lparr>limbs = [3, 2], negative = False\<rparr>
   \<and> spec_less \<lparr>limbs = [5, 1], negative = False\<rparr> \<lparr>limbs = [3, 2], negative = False\<rparr>
   \<and> \<not> less_op \<lparr>limbs = [5, 1], negative = False\<rparr> \<lparr>limbs = [3, 2], negative = False\<rparr>"
  by (simp add: normalized_def spec_less_def mag_less_def less_op_def)

text \<open>
  Claim C4 (exactly one of \<open>a < b\<close>, \<open>a == b\<close>, \<open>a > b\<close> holds). For
  \<open>5 + 1 \<cdot> 2\<^sup>3\<^sup>2\<close> and \<open>3 + 2 \<cdot> 2\<^sup>3\<^sup>2\<close> none of the three holds, and for
  \<open>a = b = -3\<close> both \<open>a < b\<close> and \<open>a == b\<close> hold.
\<close>

theorem ordering_not_trichotomous:
  "\<not> less_op \<lparr>limbs = [5, 1], negative = False\<rparr> \<lparr>limbs = [3, 2], negative = False\<rparr>
   \<and> \<not> eq_op \<lparr>limbs = [5, 1], negative = False\<rparr> \<lparr>limbs = [3, 2], negative = False\<rparr>
   \<and> \<not> greater_op \<lparr>limbs = [5, 1], negative = False\<rparr> \<lparr>limbs = [3, 2], negative = False\<rparr>
   \<and> less_op \<lparr>limbs = [3], negative = True\<rparr> \<lparr>limbs = [3], negative = True\<rparr>
   \<and> eq_op \<lparr>limbs = [3], negative = True\<rparr> \<lparr>limbs = [3], negative = True\<rparr>"
  by (simp add: less_op_def eq_op_def greater_op_def)

subsection \<open>Increment, decrement and NOT\<close>

lemma pre_dec_zero:
  "pre_dec stray BigInteger_zero =
     \<lparr>limbs = (if stray = 0 then [4294967295] else [4294967295, 0]), negative = False\<rparr>"
proof (cases "stray = 0")
  case True
  have "pre_dec 0 BigInteger_zero = \<lparr>limbs = [4294967295], negative = False\<rparr>"
    by code_simp
  with True show ?thesis
    by simp
next
  case False
  have "eliminateNegativeZero \<lparr>limbs = fst (dec_loop [0] 0) @ [0], negative = False\<rparr>
      = \<lparr>limbs = [4294967295, 0], negative = False\<rparr>"
    by code_simp
  with False show ?thesis
    by (simp add: pre_dec_def borrow_down_def BigInteger_zero_def trimLeadingZeros_stray
        case_prod_beta)
qed

lemma pre_inc_after_dec:
  "pre_inc stray \<lparr>limbs = [4294967295], negative = False\<rparr>
     = \<lparr>limbs = [0, 1], negative = False\<rparr>"
  "pre_inc stray \<lparr>limbs = [4294967295, 0], negative = False\<rparr>
     = \<lparr>limbs = [0, 1], negative = False\<rparr>"
  by (simp_all add: pre_inc_def carry_up_def inc_loop.simps)

lemma pre_inc_minus_one:
  "pre_inc stray \<lparr>limbs = [1], negative = True\<rparr> =
     (if stray = 0 then \<lparr>limbs = [0], negative = False\<rparr>
      else \<lparr>limbs = [0, 0], negative = True\<rparr>)"
proof (cases "stray = 0")
  case True
  have "pre_inc 0 \<lparr>limbs = [1], negative = True\<rparr> = \<lparr>limbs = [0], negative = False\<rparr>"
    by code_simp
  with True show ?thesis
    by simp
next
  case False
  have "eliminateNegativeZero \<lparr>limbs = fst (dec_loop [1] 0) @ [0], negative = True\<rparr>
      = \<lparr>limbs = [0, 0], negative = True\<rparr>"
    by code_simp
  with False show ?thesis
    by (simp add: pre_inc_def borrow_down_def trimLeadingZeros_stray case_prod_beta)
qed

text \<open>
  Claim C6 (\<open>++(--a) == a\<close> and \<open>--(++a) == a\<close> for every \<open>a\<close>). Decrementing
  zero borrows out of the only limb and keeps the sign flag: the result is
  \<open>2\<^sup>3\<^sup>2 - 1\<close>, and the increment yields \<open>2\<^sup>3\<^sup>2\<close>, whatever words lie past the
  vectors.
\<close>

theorem inc_dec_zero_not_inverse:
  "pre_inc s2 (pre_dec s1 BigInteger_zero) = \<lparr>limbs = [0, 1], negative = False\<rparr>
   \<and> \<not> eq_op (pre_inc s2 (pre_dec s1 BigInteger_zero)) BigInteger_zero"
  unfolding pre_dec_zero by (simp add: pre_inc_after_dec eq_op_def BigInteger_zero_def)

text \<open>
  Claim C7 (\<open>~a == -(a) - 1\<close>, and \<^verbatim>\<open>operator~\<close> returns a normalised value, so
  that \<open>~(-1)\<close> is the canonical zero). For \<open>a = -1\<close> the increment yields zero and the
  sign flip then makes it a negative zero (or, when the word past the vector is not
  zero, two zero limbs): not normalised and not equal to the canonical zero, which is
  what \<open>(0 - a) - 1\<close> computes.
\<close>

theorem bit_not_minus_one_not_normalized:
  "\<not> normalized (bit_not stray \<lparr>limbs = [1], negative = True\<rparr>)
   \<and> \<not> eq_op (bit_not stray \<lparr>limbs = [1], negative = True\<rparr>) BigInteger_zero
   \<and> bit_not 0 \<lparr>limbs = [1], negative = True\<rparr> = \<lparr>limbs = [0], negative = True\<rparr>
   \<and> minus_assign 0 (minus_assign 0 BigInteger_zero \<lparr>limbs = [1], negative = True\<rparr>)
        (BigInteger_of_int64 1) = BigInteger_zero"
proof -
  have "minus_assign 0 (minus_assign 0 BigInteger_zero \<lparr>limbs = [1], negative = True\<rparr>)
        (BigInteger_of_int64 1) = BigInteger_zero"
    by code_simp
  then show ?thesis
    by (simp add: bit_not_def pre_inc_minus_one normalized_def eq_op_def BigInteger_zero_def)
qed

subsection \<open>Multiplication\<close>

text \<open>
  Claim C5 (after \<open>a *= b\<close> the sign flag is the exclusive or of the operands' sign
  flags). \<^verbatim>\<open>operator*=\<close> never reads the sign flag of \<open>rhs\<close>: for \<open>a = 1\<close> and
  \<open>b = -1\<close> the flag of the product is false, where the exclusive or is true.
\<close>

theorem times_assign_ignores_rhs_sign:
  "map_option negative
     (times_assign stray \<lparr>limbs = [1], negative = False\<rparr> \<lparr>limbs = [1], negative = True\<rparr>)
   = Some False
   \<and> (negative \<lparr>limbs = [1], negative = False\<rparr> \<noteq> negative \<lparr>limbs = [1], negative = True\<rparr>)"
proof -
  have "times_limbs \<lparr>limbs = [1], negative = False\<rparr> \<lparr>limbs = [1], negative = True\<rparr>
      = Some [1, 0]"
    by code_simp
  then show ?thesis
    using negative_trimLeadingZeros [of stray "\<lparr>limbs = [1, 0], negative = False\<rparr>"]
    by (auto simp: times_assign_def)
qed

text \<open>
  Claim C1 (\<open>a * k\<close> equals \<open>a\<close> added \<open>k\<close> times to the canonical zero). For
  \<open>a = 2\<^sup>3\<^sup>2 - 1\<close> and \<open>k = 1\<close> the sum is \<open>a\<close>, and the product has the least
  significant limb \<open>1073741822 = (2\<^sup>3\<^sup>2 - 1) mod (3 \<cdot> 2\<^sup>3\<^sup>0 + 1)\<close>: the transform
  reduces every limb modulo \<open>3 \<cdot> 2\<^sup>3\<^sup>0 + 1\<close> and no carry is propagated.
\<close>

theorem times_assign_not_repeated_addition:
  "plus_assign s BigInteger_zero \<lparr>limbs = [4294967295], negative = False\<rparr>
     = \<lparr>limbs = [4294967295], negative = False\<rparr>
   \<and> map_option (\<lambda>p. (hd (limbs p),
          eq_op p (plus_assign s BigInteger_zero \<lparr>limbs = [4294967295], negative = False\<rparr>)))
        (times_assign stray \<lparr>limbs = [4294967295], negative = False\<rparr> (BigInteger_of_int64 1))
      = Some (1073741822, False)"
proof -
  let ?a = "\<lparr>limbs = [4294967295], negative = False\<rparr>"
  have sum: "plus_assign s BigInteger_zero ?a = ?a"
  proof -
    have "add_magnitudes BigInteger_zero ?a = ?a"
      by code_simp
    then show ?thesis
      by (simp add: plus_assign.simps [of s BigInteger_zero ?a] del: BigInteger.simps)
        (simp add: BigInteger_zero_def)
  qed
  have prod: "times_limbs ?a (BigInteger_of_int64 1) = Some [1073741822, 0]"
    by code_simp
  have hd0: "limbs (trimLeadingZeros 0 \<lparr>limbs = [1073741822, 0], negative = False\<rparr>) = [1073741822]"
    by code_simp
  have hd: "hd (limbs (trimLeadingZeros stray \<lparr>limbs = [1073741822, 0], negative = False\<rparr>))
      = 1073741822"
    using hd0 by (cases "stray = 0") (simp_all add: trimLeadingZeros_stray eliminateNegativeZero_def)
  have "\<not> eq_op (trimLeadingZeros stray \<lparr>limbs = [1073741822, 0], negative = False\<rparr>) ?a"
    using hd eq_op_limbs [of "trimLeadingZeros stray \<lparr>limbs = [1073741822, 0], negative = False\<rparr>" ?a]
    by auto
  then show ?thesis
    using sum prod hd by (simp add: times_assign_def)
qed

subsection \<open>Stream extraction without a digit\<close>

lemma ios_clear_quiet: "no_exceptions s \<Longrightarrow> ios_clear s = Inr s"
  by (simp add: ios_clear_def raises_def no_exceptions_def)

lemma peek_quiet:
  "no_exceptions s \<Longrightarrow>
   is_peek s = Inr (if \<not> good s then (None, s\<lparr>failbit := True\<rparr>)
                    else if gpos s < length (buf s) then (Some (buf s ! gpos s), s)
                    else (None, s\<lparr>eofbit := True\<rparr>))"
  by (simp add: is_peek_def ios_clear_quiet no_exceptions_def)











section \<open>The number-theoretic transform and its inverse\<close>

subsection \<open>Modular exponentiation\<close>

lemma unat_mod_P: "unat BigInteger_mod = modP"
  by (simp add: BigInteger_mod_def)

lemma mulmod_unat:
  assumes "unat a < 2 ^ 32" "unat b < 2 ^ 32"
  shows "unat (a * b mod BigInteger_mod :: u64) = (unat a * unat b) mod modP"
proof -
  have "unat a * unat b < 2 ^ 32 * 2 ^ 32"
    using assms by (intro mult_strict_mono) simp_all
  then have "unat (a * b) = unat a * unat b"
    by (simp add: unat_mult_lem [symmetric])
  then show ?thesis
    by (simp add: unat_mod unat_mod_P)
qed

lemma and_one_odd: "(e AND 1 \<noteq> 0) = odd (unat e)" for e :: u64
proof -
  have "(e mod 2 = 0) = (unat (e mod 2) = 0)"
    by (simp add: unat_eq_0)
  also have "unat (e mod 2) = unat e mod 2"
    by (simp add: unat_mod)
  finally show ?thesis
    by (simp add: and_one_eq even_iff_mod_2_eq_zero)
qed

lemma xor_one_neq: "(e XOR 1 \<noteq> 0) = (e \<noteq> 1)" for e :: u64
proof -
  have "e = 1" if "e XOR 1 = 0"
  proof -
    have "(e XOR 1) XOR 1 = e"
      by (simp add: xor.assoc)
    with that show ?thesis
      by simp
  qed
  then show ?thesis
    by auto
qed

lemma modpow_loop_correct:
  "unat b < modP \<Longrightarrow> unat r < modP \<Longrightarrow>
   unat (modpow_loop b e r) = (unat r * unat b ^ unat e) mod modP"
proof (induction b e r rule: modpow_loop.induct)
  case (1 b e r)
  define r' where "r' = (if e AND 1 \<noteq> 0 then r * b mod BigInteger_mod else r)"
  define b' where "b' = (if e XOR 1 \<noteq> 0 then b * b mod BigInteger_mod else b)"
  define e' where "e' = drop_bit 1 e"
  have e': "unat e' = unat e div 2"
    by (simp add: e'_def drop_bit_eq_div unat_div)
  have r'1: "unat r' = (unat r * unat b ^ (unat e mod 2)) mod modP"
  proof (cases "odd (unat e)")
    case True
    then have "unat e mod 2 = 1"
      by (simp add: odd_iff_mod_2_eq_one)
    then show ?thesis
      using True 1(2,3) by (simp add: r'_def and_one_odd mulmod_unat)
  next
    case False
    then have "unat e mod 2 = 0"
      by simp
    then show ?thesis
      using False 1(3) by (simp add: r'_def and_one_odd)
  qed
  have r'2: "unat r' < modP"
    unfolding r'1 by simp
  have unf: "modpow_loop b e r = (if e' \<noteq> 0 then modpow_loop b' e' r' else r')"
    by (subst modpow_loop.simps) (simp add: r'_def b'_def e'_def Let_def)
  show ?case
  proof (cases "e' = 0")
    case True
    then have "unat e div 2 = 0"
      using e' by simp
    then have "unat e mod 2 = unat e"
      by presburger
    then show ?thesis
      using True unf r'1 by simp
  next
    case False
    then have "e \<noteq> 1"
      by (auto simp: e'_def drop_bit_eq_div)
    then have b'1: "unat b' = (unat b * unat b) mod modP"
      using 1(2) by (simp add: b'_def xor_one_neq mulmod_unat)
    then have b'2: "unat b' < modP"
      by simp
    have "unat (modpow_loop b' e' r') = (unat r' * unat b' ^ unat e') mod modP"
      using False b'2 r'2 by (intro 1(1) [OF r'_def b'_def e'_def]) simp_all
    also have "\<dots> = ((unat r * unat b ^ (unat e mod 2)) * (unat b * unat b) ^ (unat e div 2)) mod modP"
      unfolding r'1 b'1 e' by (rule mod_mult_cong) (simp_all add: power_mod)
    also have "(unat r * unat b ^ (unat e mod 2)) * (unat b * unat b) ^ (unat e div 2)
        = unat r * (unat b ^ (unat e mod 2) * unat b ^ (2 * (unat e div 2)))"
      by (simp add: power_mult power2_eq_square mult.assoc)
    also have "unat b ^ (unat e mod 2) * unat b ^ (2 * (unat e div 2)) = unat b ^ unat e"
      by (simp flip: power_add)
    finally show ?thesis
      using False unf by simp
  qed
qed

lemma modpow_correct:
  "unat b < modP \<Longrightarrow> unat (modpow b e) = unat b ^ unat e mod modP"
  using modpow_loop_correct [of b 1 e] by (simp add: modpow_def)

lemma half_order: "modpow BigInteger_root (drop_bit 1 BigInteger_mod) = 3221225472"
  by code_simp

lemma five_pow:
  "unat BigInteger_root ^ unat (drop_bit 1 BigInteger_mod) mod modP = 3221225472"
proof -
  have a: "unat (modpow BigInteger_root (drop_bit 1 BigInteger_mod))
      = unat BigInteger_root ^ unat (drop_bit 1 BigInteger_mod) mod modP"
    by (rule modpow_correct) (simp add: BigInteger_root_def)
  have b: "unat (modpow BigInteger_root (drop_bit 1 BigInteger_mod)) = 3221225472"
    by (subst half_order) simp
  show ?thesis
    by (rule trans [OF a [symmetric] b])
qed

subsection \<open>Bit reversal\<close>

lemma brev_Suc: "brev (Suc s) i = (i mod 2) * 2 ^ s + brev s (i div 2)"
  by (rule brev.simps(2))

lemma brev_less: "brev s i < 2 ^ s"
proof (induction s arbitrary: i)
  case 0
  show ?case by simp
next
  case (Suc s)
  have "i mod 2 * 2 ^ s \<le> 2 ^ s"
    by (cases "even i") (simp_all add: mod_2_eq_odd)
  with Suc [of "i div 2"] show ?case
    unfolding brev_Suc power_Suc by linarith
qed

lemma brev_even: "brev (Suc s) (2 * u) = brev s u"
  by (simp add: brev_Suc)

lemma brev_odd: "brev (Suc s) (2 * u + 1) = 2 ^ s + brev s u"
  by (simp add: brev_Suc)

lemma brev_high:
  "i < 2 ^ s \<Longrightarrow> brev (Suc s) i = 2 * brev s i \<and> brev (Suc s) (i + 2 ^ s) = 2 * brev s i + 1"
proof (induction s arbitrary: i)
  case 0
  then show ?case by (simp add: brev_Suc)
next
  case (Suc s)
  have h: "i div 2 < 2 ^ s"
    using Suc.prems by simp
  have a: "(i + 2 ^ Suc s) mod 2 = i mod 2"
    by simp
  have b: "(i + 2 ^ Suc s) div 2 = i div 2 + 2 ^ s"
    by simp
  have c: "brev (Suc (Suc s)) i = (i mod 2) * 2 ^ Suc s + brev (Suc s) (i div 2)"
    by (rule brev_Suc)
  have d: "brev (Suc (Suc s)) (i + 2 ^ Suc s)
      = (i mod 2) * 2 ^ Suc s + brev (Suc s) (i div 2 + 2 ^ s)"
    by (simp only: brev_Suc [of "Suc s"] a b)
  have e: "brev (Suc s) i = (i mod 2) * 2 ^ s + brev s (i div 2)"
    by (rule brev_Suc)
  show ?case
    unfolding c d e using Suc.IH [OF h] by (simp add: algebra_simps)
qed

lemma brev_involution: "i < 2 ^ s \<Longrightarrow> brev s (brev s i) = i"
proof (induction s arbitrary: i)
  case 0
  then show ?case by simp
next
  case (Suc s)
  have h: "i div 2 < 2 ^ s"
    using Suc.prems by simp
  have lt: "brev s (i div 2) < 2 ^ s"
    by (rule brev_less)
  note hi = brev_high [OF lt]
  show ?case
  proof (cases "i mod 2 = 0")
    case True
    then have "brev (Suc s) i = brev s (i div 2)"
      by (simp add: brev_Suc)
    then have "brev (Suc s) (brev (Suc s) i) = 2 * brev s (brev s (i div 2))"
      using hi by simp
    also have "\<dots> = 2 * (i div 2)"
      using Suc.IH [OF h] by simp
    finally show ?thesis
      using True by presburger
  next
    case False
    then have "i mod 2 = 1"
      by presburger
    then have "brev (Suc s) i = brev s (i div 2) + 2 ^ s"
      by (simp add: brev_Suc)
    then have "brev (Suc s) (brev (Suc s) i) = 2 * brev s (brev s (i div 2)) + 1"
      using hi by simp
    also have "\<dots> = 2 * (i div 2) + 1"
      using Suc.IH [OF h] by simp
    finally show ?thesis
      using False by presburger
  qed
qed

lemma xor_pow2_low: "j < 2 ^ s \<Longrightarrow> j XOR 2 ^ s = j + 2 ^ s" for j :: nat
proof -
  assume a: "j < 2 ^ s"
  then have nb: "\<not> bit j s"
    by (simp add: bit_iff_odd)
  have "j XOR 2 ^ s = flip_bit s j"
    by (simp add: flip_bit_eq_xor push_bit_eq_mult)
  also have "\<dots> = set_bit s j"
    using nb by (simp add: flip_bit_eq_if)
  also have "\<dots> = j + 2 ^ s"
    using nb by (simp add: set_bit_eq)
  finally show ?thesis .
qed

lemma xor_pow2_high: "2 ^ s \<le> j \<Longrightarrow> j < 2 ^ Suc s \<Longrightarrow> j XOR 2 ^ s = j - 2 ^ s" for j :: nat
proof -
  assume a: "2 ^ s \<le> j" "j < 2 ^ Suc s"
  then have "j - 2 ^ s < 2 ^ s"
    by simp
  then have "(j - 2 ^ s) XOR 2 ^ s = j - 2 ^ s + 2 ^ s"
    by (rule xor_pow2_low)
  then have "(j - 2 ^ s) XOR 2 ^ s = j"
    using a by simp
  then have "j XOR 2 ^ s = ((j - 2 ^ s) XOR 2 ^ s) XOR 2 ^ s"
    by simp
  also have "\<dots> = j - 2 ^ s"
    by (simp only: xor.assoc xor_self_eq xor.right_neutral)
  finally show ?thesis .
qed

lemma rev_next_pow2:
  "j < 2 ^ Suc s \<Longrightarrow>
   rev_next (2 ^ Suc s) j = (if j < 2 ^ s then j + 2 ^ s else rev_next (2 ^ s) (j - 2 ^ s))"
proof -
  assume a: "j < 2 ^ Suc s"
  have d: "(2::nat) ^ Suc s div 2 = 2 ^ s"
    by simp
  have u: "rev_next (2 ^ Suc s) j = rev_next (2 ^ s) (j XOR 2 ^ s)"
    using a by (subst rev_next.simps) (simp only: d if_True)
  show ?thesis
  proof (cases "j < 2 ^ s")
    case True
    then have "rev_next (2 ^ s) (j XOR 2 ^ s) = j + 2 ^ s"
      by (subst rev_next.simps) (simp add: xor_pow2_low)
    with True u show ?thesis by simp
  next
    case False
    then have "j XOR 2 ^ s = j - 2 ^ s"
      using a by (intro xor_pow2_high) simp_all
    with False u show ?thesis by simp
  qed
qed

lemma rev_next_brev:
  "Suc i < 2 ^ s \<Longrightarrow> rev_next (2 ^ s) (brev s i) = brev s (Suc i)"
proof (induction s arbitrary: i)
  case 0
  then show ?case by simp
next
  case (Suc s)
  have lt: "brev (Suc s) i < 2 ^ Suc s"
    by (rule brev_less)
  have lt': "brev s (i div 2) < 2 ^ s"
    by (rule brev_less)
  show ?case
  proof (cases "even i")
    case True
    then have e: "brev (Suc s) i = brev s (i div 2)"
      by (simp add: brev_Suc)
    have "Suc i mod 2 = 1" "Suc i div 2 = i div 2"
      using True by (simp_all add: mod_2_eq_odd)
    then have "brev (Suc s) (Suc i) = 2 ^ s + brev s (i div 2)"
      by (simp add: brev_Suc [of s "Suc i"])
    then show ?thesis
      using lt lt' by (simp del: power_Suc add: rev_next_pow2 e)
  next
    case False
    then have e: "brev (Suc s) i = 2 ^ s + brev s (i div 2)"
      by (simp add: brev_Suc mod_2_eq_odd)
    have d: "Suc i mod 2 = 0" "Suc i div 2 = Suc (i div 2)"
      using False by (simp_all add: mod_2_eq_odd)
    have "Suc i div 2 < 2 ^ s"
      using Suc.prems by simp
    then have "Suc (i div 2) < 2 ^ s"
      using d by simp
    then have "rev_next (2 ^ s) (brev s (i div 2)) = brev s (Suc (i div 2))"
      by (rule Suc.IH)
    moreover have "brev (Suc s) (Suc i) = brev s (Suc (i div 2))"
      using d by (simp add: brev_Suc [of s "Suc i"])
    ultimately show ?thesis
      using lt by (simp del: power_Suc add: rev_next_pow2 e)
  qed
qed

lemma brev_eq_iff:
  "a < 2 ^ K \<Longrightarrow> b < 2 ^ K \<Longrightarrow> (brev K a = b) = (a = brev K b)"
  using brev_involution by auto

lemma bitrev_step:
  assumes i: "i < 2 ^ K" and len: "length v = 2 ^ K"
    and inv: "\<And>idx. idx < 2 ^ K \<Longrightarrow>
      v ! idx = (if idx < i \<and> brev K idx < i then v0 ! brev K idx else v0 ! idx)"
    and idx: "idx < 2 ^ K"
  defines "j \<equiv> brev K i"
  defines "v' \<equiv> (if j < i then v[i := v ! j, j := v ! i] else v)"
  shows "v' ! idx = (if idx < Suc i \<and> brev K idx < Suc i then v0 ! brev K idx else v0 ! idx)"
proof -
  have j: "j < 2 ^ K"
    unfolding j_def by (rule brev_less)
  have bj: "brev K j = i"
    unfolding j_def using i by (rule brev_involution)
  have vi: "v ! i = v0 ! i"
    using inv [OF i] by simp
  have vj: "v ! j = v0 ! j"
    using inv [OF j] bj by simp
  have other: "brev K idx \<noteq> i" if "idx \<noteq> j"
    using that brev_eq_iff [OF idx i] j_def by simp
  consider "idx = j" | "idx = i" "idx \<noteq> j" | "idx \<noteq> i" "idx \<noteq> j"
    by blast
  then show ?thesis
  proof cases
    case 1
    show ?thesis
    proof (cases "j < i")
      case True
      then show ?thesis
        using 1 bj vi len j by (simp add: v'_def)
    next
      case False
      then have "v' ! idx = v0 ! j"
        using 1 vj by (simp add: v'_def)
      moreover have "j = i \<or> \<not> j < Suc i"
        using False by auto
      ultimately show ?thesis
        using 1 bj by auto
    qed
  next
    case 2
    then have ji: "j \<noteq> i"
      by simp
    show ?thesis
    proof (cases "j < i")
      case True
      then show ?thesis
        using 2 vj len i j_def by (simp add: v'_def)
    next
      case False
      then have "\<not> brev K idx < Suc i"
        using 2 ji j_def by simp
      then show ?thesis
        using 2 False vi by (simp add: v'_def)
    qed
  next
    case 3
    have "v' ! idx = v ! idx"
      using 3 by (simp add: v'_def)
    moreover have "(idx < Suc i \<and> brev K idx < Suc i) = (idx < i \<and> brev K idx < i)"
      using 3 other by (auto simp: less_Suc_eq)
    ultimately show ?thesis
      using inv [OF idx] by simp
  qed
qed

lemma bitrev_loop_inv:
  assumes "i \<le> 2 ^ K" "length v = 2 ^ K" "i < 2 ^ K \<Longrightarrow> j = brev K i"
    and "\<And>idx. idx < 2 ^ K \<Longrightarrow>
      v ! idx = (if idx < i \<and> brev K idx < i then v0 ! brev K idx else v0 ! idx)"
  shows "bitrev_loop (2 ^ K) i j v = map (\<lambda>idx. v0 ! brev K idx) [0..<2 ^ K]"
  using assms
proof (induction "2 ^ K - i" arbitrary: i j v)
  case 0
  then have i: "i = 2 ^ K"
    by simp
  have "v = map (\<lambda>idx. v0 ! brev K idx) [0..<2 ^ K]"
    using 0(3) 0(5) i brev_less [of K] by (intro nth_equalityI) simp_all
  then show ?case
    using i by (subst bitrev_loop.simps) simp
next
  case (Suc d)
  then have i: "i < 2 ^ K"
    by simp
  then have j: "j = brev K i"
    by (rule Suc.prems(3))
  define v' where "v' = (if j < i then v[i := v ! j, j := v ! i] else v)"
  have unf: "bitrev_loop (2 ^ K) i j v = bitrev_loop (2 ^ K) (Suc i) (rev_next (2 ^ K) j) v'"
    using i by (subst bitrev_loop.simps) (simp add: v'_def)
  have "bitrev_loop (2 ^ K) (Suc i) (rev_next (2 ^ K) j) v' = map (\<lambda>idx. v0 ! brev K idx) [0..<2 ^ K]"
  proof (rule Suc.hyps(1))
    show "d = 2 ^ K - Suc i"
      using Suc.hyps(2) by simp
    show "Suc i \<le> 2 ^ K"
      using i by simp
    show "length v' = 2 ^ K"
      using Suc.prems(2) by (simp add: v'_def)
    show "rev_next (2 ^ K) j = brev K (Suc i)" if "Suc i < 2 ^ K"
      unfolding j using that by (rule rev_next_brev)
    show "v' ! idx = (if idx < Suc i \<and> brev K idx < Suc i then v0 ! brev K idx else v0 ! idx)"
      if "idx < 2 ^ K" for idx
      unfolding v'_def j using i Suc.prems(2) Suc.prems(4) that by (rule bitrev_step)
  qed
  then show ?case
    using unf by simp
qed

lemma bitrev_loop_eq:
  "length v = 2 ^ K \<Longrightarrow> bitrev_loop (2 ^ K) 0 0 v = map (\<lambda>idx. v ! brev K idx) [0..<2 ^ K]"
proof (rule bitrev_loop_inv)
  show "0 = brev K 0"
    by (induction K) (simp_all add: brev_Suc)
qed simp_all

subsection \<open>Roots of unity and the inversion of the discrete Fourier transform\<close>

lemma sum_halves:
  "(\<Sum>j<2 * m. f j) = (\<Sum>j<m. f j) + (\<Sum>j<m. f (j + m))" for f :: "nat \<Rightarrow> 'a::comm_monoid_add"
proof -
  have "(\<Sum>j<2 * m. f j) = sum f {0..<m} + sum f {m..<2 * m}"
    by (simp add: lessThan_atLeast0 sum.atLeastLessThan_concat)
  also have "sum f {m..<2 * m} = sum (\<lambda>j. f (j + m)) {0..<m}"
    using sum.shift_bounds_nat_ivl [of f 0 m m] by (simp add: mult_2)
  finally show ?thesis
    by (simp add: lessThan_atLeast0)
qed

lemma sum_even_odd:
  "(\<Sum>u<2 * m. f u) = (\<Sum>u<m. f (2 * u)) + (\<Sum>u<m. f (2 * u + 1))"
  for f :: "nat \<Rightarrow> 'a::comm_monoid_add"
  by (induction m) (simp_all add: algebra_simps)

lemma root_sum_zero:
  fixes w :: "'a::comm_ring_1"
  assumes "w ^ (2 ^ K) = - 1" "\<not> 2 ^ Suc K dvd d"
  shows "(\<Sum>j<2 ^ Suc K. w ^ (j * d)) = 0"
  using assms
proof (induction K arbitrary: w d)
  case 0
  then have "odd d"
    by simp
  then have "w ^ d = - 1"
    using 0(1) by (auto elim!: oddE simp: power_mult power_add)
  then show ?case
    by (simp add: lessThan_Suc numeral_2_eq_2)
next
  case (Suc K)
  let ?m = "2 ^ Suc K :: nat"
  have wm: "w ^ (?m * d) = (- 1) ^ d"
    using Suc.prems(1) by (simp only: power_mult)
  have "(\<Sum>j<2 ^ Suc (Suc K). w ^ (j * d)) = (\<Sum>j<2 * ?m. w ^ (j * d))"
    by simp
  also have "\<dots> = (\<Sum>j<?m. w ^ (j * d)) + (\<Sum>j<?m. w ^ ((j + ?m) * d))"
    by (rule sum_halves)
  also have "(\<Sum>j<?m. w ^ ((j + ?m) * d)) = (- 1) ^ d * (\<Sum>j<?m. w ^ (j * d))"
  proof -
    have "w ^ ((j + ?m) * d) = (- 1) ^ d * w ^ (j * d)" for j
    proof -
      have "w ^ ((j + ?m) * d) = w ^ (j * d) * w ^ (?m * d)"
        by (simp only: add_mult_distrib power_add)
      then show ?thesis
        by (simp only: wm mult.commute [of "w ^ (j * d)"])
    qed
    then show ?thesis
      by (simp only: sum_distrib_left)
  qed
  finally have split: "(\<Sum>j<2 ^ Suc (Suc K). w ^ (j * d))
      = (1 + (- 1) ^ d) * (\<Sum>j<?m. w ^ (j * d))"
    by (simp add: algebra_simps)
  show ?case
  proof (cases "even d")
    case False
    then show ?thesis
      unfolding split by simp
  next
    case True
    then obtain d' where d: "d = 2 * d'"
      by (auto elim: evenE)
    have "(w ^ 2) ^ (2 ^ K) = - 1"
      using Suc.prems(1) by (simp add: power_mult [symmetric])
    moreover have "\<not> 2 ^ Suc K dvd d'"
      using Suc.prems(2) d by simp
    ultimately have "(\<Sum>j<2 ^ Suc K. (w ^ 2) ^ (j * d')) = 0"
      by (rule Suc.IH)
    moreover have "(w ^ 2) ^ (j * d') = w ^ (j * d)" for j
      by (simp add: d power_mult [symmetric] mult.assoc mult.left_commute)
    ultimately have "(\<Sum>j<?m. w ^ (j * d)) = 0"
      by simp
    then show ?thesis
      unfolding split by simp
  qed
qed

lemma root_pow_full:
  fixes w :: "'a::comm_ring_1"
  assumes "w ^ (2 ^ K) = - 1"
  shows "w ^ (2 ^ Suc K) = 1"
proof -
  have "w ^ (2 ^ Suc K) = (w ^ (2 ^ K)) ^ 2"
    by (simp add: power_mult [symmetric] mult.commute)
  then show ?thesis
    using assms by simp
qed

lemma root_sum_full:
  fixes w :: "'a::comm_ring_1"
  assumes "w ^ (2 ^ K) = - 1" "2 ^ Suc K dvd d"
  shows "(\<Sum>j<2 ^ Suc K. w ^ (j * d)) = of_nat (2 ^ Suc K)"
proof -
  obtain c where d: "d = 2 ^ Suc K * c"
    using assms(2) by (auto elim: dvdE)
  have "w ^ (j * d) = 1" for j
  proof -
    have "j * d = 2 ^ Suc K * (c * j)"
      unfolding d by (simp only: mult_ac)
    then have "w ^ (j * d) = (w ^ (2 ^ Suc K)) ^ (c * j)"
      by (simp only: power_mult)
    then show ?thesis
      using root_pow_full [OF assms(1)] by simp
  qed
  then show ?thesis
    by simp
qed

lemma dvd_shifted_index:
  fixes n :: nat
  assumes "t < n" "k < n"
  shows "(n dvd t + (n - 1) * k) = (t = k)"
proof -
  have n: "0 < n"
    using assms by simp
  define q where "q = (n - 1) * k"
  have "q + k = k * n"
    unfolding q_def using n by (cases n) simp_all
  then have "int q + int k = int k * int n"
    by (metis of_nat_add of_nat_mult)
  then have "int (t + q) = (int t - int k) + int k * int n"
    by simp
  then have "(int n dvd int (t + (n - 1) * k)) = (int n dvd int t - int k)"
    unfolding q_def by (simp only: dvd_add_times_triv_right_iff)
  also have "\<dots> = (int t - int k = 0)"
  proof
    assume d: "int n dvd int t - int k"
    show "int t - int k = 0"
    proof (rule ccontr)
      assume "int t - int k \<noteq> 0"
      with d have "int n \<le> \<bar>int t - int k\<bar>"
        by (intro zdvd_imp_le) simp_all
      with assms show False
        by linarith
    qed
  qed simp
  finally show ?thesis
    by (simp only: int_dvd_int_iff) auto
qed

lemma dft_inverse:
  fixes w :: "'a::comm_ring_1" and x :: "nat \<Rightarrow> 'a"
  assumes w: "w ^ (2 ^ K) = - 1" and k: "k < 2 ^ Suc K"
  shows "(\<Sum>j<2 ^ Suc K. (\<Sum>t<2 ^ Suc K. x t * w ^ (t * j)) * (w ^ (2 ^ Suc K - 1)) ^ (j * k))
         = of_nat (2 ^ Suc K) * x k"
proof -
  let ?n = "2 ^ Suc K :: nat"
  have tm: "x t * w ^ (t * j) * (w ^ (?n - 1)) ^ (j * k) = x t * w ^ (j * (t + (?n - 1) * k))"
    for t j
  proof -
    have "j * (t + (?n - 1) * k) = t * j + (?n - 1) * (j * k)"
      by (simp add: algebra_simps)
    then show ?thesis
      by (simp only: power_add power_mult mult.assoc)
  qed
  have inner: "(\<Sum>j<?n. w ^ (j * (t + (?n - 1) * k))) = (if t = k then of_nat ?n else 0)"
    if "t < ?n" for t
  proof (cases "t = k")
    case True
    then have "?n dvd t + (?n - 1) * k"
      using dvd_shifted_index [OF that k] by simp
    then show ?thesis
      using True root_sum_full [OF w] by simp
  next
    case False
    then have "\<not> ?n dvd t + (?n - 1) * k"
      using dvd_shifted_index [OF that k] by simp
    then show ?thesis
      using False root_sum_zero [OF w] by simp
  qed
  have "(\<Sum>j<?n. (\<Sum>t<?n. x t * w ^ (t * j)) * (w ^ (?n - 1)) ^ (j * k))
      = (\<Sum>j<?n. \<Sum>t<?n. x t * w ^ (j * (t + (?n - 1) * k)))"
    by (simp only: sum_distrib_right tm)
  also have "\<dots> = (\<Sum>t<?n. \<Sum>j<?n. x t * w ^ (j * (t + (?n - 1) * k)))"
    by (rule sum.swap)
  also have "\<dots> = (\<Sum>t<?n. x t * (\<Sum>j<?n. w ^ (j * (t + (?n - 1) * k))))"
    by (simp only: sum_distrib_left)
  also have "\<dots> = (\<Sum>t<?n. x t * (if t = k then of_nat ?n else 0))"
    by (rule sum.cong) (simp_all only: inner lessThan_iff)
  also have "\<dots> = (\<Sum>t<?n. if t = k then x k * of_nat ?n else 0)"
    by (rule sum.cong) auto
  also have "\<dots> = x k * of_nat ?n"
    using k by (simp add: sum.delta)
  finally show ?thesis
    by (simp only: mult.commute)
qed

subsection \<open>Residues and the butterfly\<close>

lemma of_nat_P: "(of_nat modP :: Zp) = 0"
  by simp

lemma of_nat_mod_P: "(of_nat (a mod modP) :: Zp) = of_nat a"
proof -
  have "(of_nat a :: Zp) = of_nat (modP * (a div modP) + a mod modP)"
    by simp
  also have "\<dots> = of_nat modP * of_nat (a div modP) + of_nat (a mod modP)"
    by (simp only: of_nat_add of_nat_mult)
  finally show ?thesis
    by (simp only: of_nat_P) simp
qed

lemma Rep_of_nat_Zp: "Rep_bit1 (of_nat k :: Zp) = int k mod 3221225473"
proof -
  have "Rep_bit1 (Abs_bit1 (int k mod int CARD(Zp)) :: Zp) = int k mod int CARD(Zp)"
    by (rule bit1.Rep_Abs_mod)
  then show ?thesis
    by (simp add: bit1.of_nat_eq)
qed

lemma of_nat_Zp_inject:
  assumes "(of_nat a :: Zp) = of_nat b" "a < modP" "b < modP"
  shows "a = b"
proof -
  have "int a mod 3221225473 = int b mod 3221225473"
    using assms(1) Rep_of_nat_Zp by metis
  then show ?thesis
    using assms(2,3) by simp
qed

lemma val_inject: "val a = val b \<Longrightarrow> unat a < modP \<Longrightarrow> unat b < modP \<Longrightarrow> a = b"
  unfolding val_def using of_nat_Zp_inject by (metis unsigned_word_eqI)

lemma butterfly_eq:
  "0 < i \<Longrightarrow> butterfly w i I j k v =
     v[i + j + k := bf_hi (v ! (j + k)) (v ! (i + j + k)) (w ! (I * k)),
       j + k := bf_lo (v ! (j + k)) (v ! (i + j + k)) (w ! (I * k))]"
  by (simp add: butterfly_def bf_hi_def bf_lo_def bf_z_def Let_def)

lemma unat_ucast_32_64: "unat (ucast (a :: u32) :: u64) = unat a"
proof -
  have "unat a < 2 ^ 64"
    using unsigned_less [of a, where 'a = nat] by simp
  then show ?thesis
    by (simp add: unsigned_ucast_eq take_bit_nat_eq_self)
qed

lemma unat_ucast_64_32: "unat x < 2 ^ 32 \<Longrightarrow> unat (ucast (x :: u64) :: u32) = unat x"
  by (simp add: unsigned_ucast_eq take_bit_nat_eq_self)

lemma unat_u32_less: "unat (a :: u32) < 2 ^ 32"
  using unsigned_less [of a, where 'a = nat] by simp

lemma unat_bf_z: "unat W < modP \<Longrightarrow> unat (bf_z b W) = unat b * unat W mod modP"
  unfolding bf_z_def using unat_u32_less [of b]
  by (subst mulmod_unat) (simp_all add: unat_ucast_32_64)

lemma unat_bf_lo:
  assumes "unat a < modP" "unat W < modP"
  shows "unat (bf_lo a b W) = (unat a + unat b * unat W) mod modP"
proof -
  define z where "z = bf_z b W"
  have z: "unat z = unat b * unat W mod modP"
    unfolding z_def using assms(2) by (rule unat_bf_z)
  then have zP: "unat z < modP"
    by simp
  have s: "unat (ucast a + z) = unat a + unat z"
    using assms(1) zP by (subst unat_add_lem [THEN iffD1]) (simp_all add: unat_ucast_32_64)
  have lt: "(ucast a + z < BigInteger_mod) = (unat a + unat z < modP)"
    by (simp add: word_less_nat_alt s unat_mod_P)
  show ?thesis
  proof (cases "unat a + unat z < modP")
    case True
    then have "unat (bf_lo a b W) = unat a + unat z"
      using lt by (simp add: bf_lo_def z_def [symmetric] unat_ucast_64_32 s)
    also have "\<dots> = (unat a + unat z) mod modP"
      using True by simp
    finally show ?thesis
      unfolding z by (simp add: mod_add_right_eq)
  next
    case False
    then have le: "BigInteger_mod \<le> ucast a + z"
      using lt by simp
    have "unat (ucast a + z - BigInteger_mod) = unat a + unat z - modP"
      using le by (simp add: unat_sub s unat_mod_P)
    moreover have "unat a + unat z - modP < modP"
      using assms(1) zP by simp
    ultimately have "unat (bf_lo a b W) = unat a + unat z - modP"
      using lt False by (simp add: bf_lo_def z_def [symmetric] unat_ucast_64_32)
    also have "\<dots> = (unat a + unat z) mod modP"
      using False assms(1) zP by (simp add: mod_if)
    finally show ?thesis
      unfolding z by (simp add: mod_add_right_eq)
  qed
qed

lemma unat_bf_hi:
  assumes "unat a < modP" "unat W < modP"
  shows "unat (bf_hi a b W) = (unat a + (modP - unat b * unat W mod modP)) mod modP"
proof -
  define z where "z = bf_z b W"
  have z: "unat z = unat b * unat W mod modP"
    unfolding z_def using assms(2) by (rule unat_bf_z)
  then have zP: "unat z < modP"
    by simp
  have lt: "(ucast a < z) = (unat a < unat z)"
    by (simp add: word_less_nat_alt unat_ucast_32_64)
  show ?thesis
  proof (cases "unat a < unat z")
    case True
    have s: "unat (ucast a + BigInteger_mod :: u64) = unat a + modP"
      using assms(1) by (subst unat_add_lem [THEN iffD1]) (simp_all add: unat_ucast_32_64 unat_mod_P)
    have "z \<le> ucast a + BigInteger_mod"
      using zP by (simp add: word_le_nat_alt s)
    then have "unat (ucast a + BigInteger_mod - z) = unat a + modP - unat z"
      by (simp add: unat_sub s)
    moreover have "unat a + modP - unat z < modP"
      using True by simp
    ultimately have "unat (bf_hi a b W) = unat a + modP - unat z"
      using lt True by (simp add: bf_hi_def z_def [symmetric] unat_ucast_64_32)
    also have "\<dots> = (unat a + (modP - unat z)) mod modP"
      using True zP by simp
    finally show ?thesis
      unfolding z .
  next
    case False
    then have "z \<le> ucast a"
      by (simp add: word_le_nat_alt unat_ucast_32_64)
    then have "unat (ucast a - z) = unat a - unat z"
      by (simp add: unat_sub unat_ucast_32_64)
    moreover have "unat a - unat z < 2 ^ 32"
      using unat_u32_less [of a] by simp
    ultimately have "unat (bf_hi a b W) = unat a - unat z"
      using lt False by (simp add: bf_hi_def z_def [symmetric] unat_ucast_64_32)
    also have "\<dots> = (unat a + (modP - unat z)) mod modP"
    proof -
      have "unat a + (modP - unat z) = (unat a - unat z) + modP"
        using False zP by simp
      then show ?thesis
        using assms(1) by (simp only: mod_add_self2) simp
    qed
    finally show ?thesis
      unfolding z .
  qed
qed

lemma bf_lo_less: "unat a < modP \<Longrightarrow> unat W < modP \<Longrightarrow> unat (bf_lo a b W) < modP"
  by (simp add: unat_bf_lo)

lemma bf_hi_less: "unat a < modP \<Longrightarrow> unat W < modP \<Longrightarrow> unat (bf_hi a b W) < modP"
  by (simp add: unat_bf_hi)

lemma val_bf_lo:
  "unat a < modP \<Longrightarrow> unat W < modP \<Longrightarrow> val (bf_lo a b W) = val a + val b * val W"
  by (simp add: val_def unat_bf_lo of_nat_mod_P)

lemma val_bf_hi:
  assumes "unat a < modP" "unat W < modP"
  shows "val (bf_hi a b W) = val a - val b * val W"
proof -
  define z where "z = unat b * unat W mod modP"
  have "(of_nat (modP - z) :: Zp) = of_nat modP - of_nat z"
    unfolding z_def by (intro of_nat_diff) simp
  then have "(of_nat (modP - z) :: Zp) = - of_nat (unat b * unat W)"
    unfolding z_def by (simp only: of_nat_P of_nat_mod_P) simp
  then show ?thesis
    using assms by (simp add: val_def unat_bf_hi of_nat_mod_P z_def)
qed

subsection \<open>One pass of the transform\<close>

lemma length_butterfly: "length (butterfly w i I j k v) = length v"
  by (simp add: butterfly_def Let_def)

lemma ntt_k_spec:
  assumes "0 < i" "j + 2 * i \<le> length v" "k0 \<le> i"
  shows "length (ntt_k w i I j k0 v) = length v \<and>
    (\<forall>idx<length v. ntt_k w i I j k0 v ! idx =
       (if j + k0 \<le> idx \<and> idx < j + i
        then bf_lo (v ! idx) (v ! (idx + i)) (w ! (I * (idx - j)))
        else if j + i + k0 \<le> idx \<and> idx < j + 2 * i
        then bf_hi (v ! (idx - i)) (v ! idx) (w ! (I * (idx - i - j)))
        else v ! idx))"
  using assms(2,3)
proof (induction "i - k0" arbitrary: k0 v)
  case 0
  then have "k0 = i"
    by simp
  then show ?case
    by (subst ntt_k.simps, subst ntt_k.simps) auto
next
  case (Suc d)
  then have k0: "k0 < i"
    by simp
  define v1 where "v1 = butterfly w i I j k0 v"
  have unf: "ntt_k w i I j k0 v = ntt_k w i I j (Suc k0) v1"
    using k0 by (subst ntt_k.simps) (simp add: v1_def)
  have len1: "length v1 = length v"
    by (simp add: v1_def length_butterfly)
  have v1: "v1 = v[i + j + k0 := bf_hi (v ! (j + k0)) (v ! (i + j + k0)) (w ! (I * k0)),
       j + k0 := bf_lo (v ! (j + k0)) (v ! (i + j + k0)) (w ! (I * k0))]"
    unfolding v1_def using assms(1) by (rule butterfly_eq)
  have ih: "length (ntt_k w i I j (Suc k0) v1) = length v1 \<and>
    (\<forall>idx<length v1. ntt_k w i I j (Suc k0) v1 ! idx =
       (if j + Suc k0 \<le> idx \<and> idx < j + i
        then bf_lo (v1 ! idx) (v1 ! (idx + i)) (w ! (I * (idx - j)))
        else if j + i + Suc k0 \<le> idx \<and> idx < j + 2 * i
        then bf_hi (v1 ! (idx - i)) (v1 ! idx) (w ! (I * (idx - i - j)))
        else v1 ! idx))"
    using Suc.hyps(2) Suc.prems k0 len1 by (intro Suc.hyps(1)) simp_all
  show ?case
  proof (intro conjI allI impI)
    show "length (ntt_k w i I j k0 v) = length v"
      using ih unf len1 by simp
  next
    fix idx
    assume idx: "idx < length v"
    have r: "ntt_k w i I j k0 v ! idx =
       (if j + Suc k0 \<le> idx \<and> idx < j + i
        then bf_lo (v1 ! idx) (v1 ! (idx + i)) (w ! (I * (idx - j)))
        else if j + i + Suc k0 \<le> idx \<and> idx < j + 2 * i
        then bf_hi (v1 ! (idx - i)) (v1 ! idx) (w ! (I * (idx - i - j)))
        else v1 ! idx)"
      using ih idx len1 unf by simp
    have lo: "v1 ! (j + k0) = bf_lo (v ! (j + k0)) (v ! (i + j + k0)) (w ! (I * k0))"
      using Suc.prems(1) k0 by (simp add: v1)
    have hi: "v1 ! (i + j + k0) = bf_hi (v ! (j + k0)) (v ! (i + j + k0)) (w ! (I * k0))"
      using Suc.prems(1) k0 assms(1) by (simp add: v1)
    have other: "v1 ! x = v ! x" if "x \<noteq> j + k0" "x \<noteq> i + j + k0" for x
      using that by (simp add: v1)
    consider "idx = j + k0" | "idx = i + j + k0" | "idx \<noteq> j + k0" "idx \<noteq> i + j + k0"
      by blast
    then show "ntt_k w i I j k0 v ! idx =
       (if j + k0 \<le> idx \<and> idx < j + i
        then bf_lo (v ! idx) (v ! (idx + i)) (w ! (I * (idx - j)))
        else if j + i + k0 \<le> idx \<and> idx < j + 2 * i
        then bf_hi (v ! (idx - i)) (v ! idx) (w ! (I * (idx - i - j)))
        else v ! idx)"
    proof cases
      case 1
      then show ?thesis
        using r lo k0 by (simp add: add.commute add.left_commute)
    next
      case 2
      then have "idx - i = j + k0" "idx - i - j = k0"
        by simp_all
      then show ?thesis
        using r hi k0 2 assms(1) by simp
    next
      case 3
      show ?thesis
      proof (cases "j + Suc k0 \<le> idx \<and> idx < j + i")
        case True
        then have "v1 ! idx = v ! idx" "v1 ! (idx + i) = v ! (idx + i)"
          using 3 by (simp_all add: other)
        then show ?thesis
          using r True by simp
      next
        case False
        note nlo = this
        show ?thesis
        proof (cases "j + i + Suc k0 \<le> idx \<and> idx < j + 2 * i")
          case True
          then have "idx - i \<noteq> j + k0" "idx - i \<noteq> i + j + k0"
            by linarith+
          then have "v1 ! idx = v ! idx" "v1 ! (idx - i) = v ! (idx - i)"
            using 3 by (simp_all add: other)
          then show ?thesis
            using r True nlo by auto
        next
          case False
          then show ?thesis
            using r nlo 3 other [of idx] by auto
        qed
      qed
    qed
  qed
qed

lemma block_index_lo:
  fixes i b idx :: nat
  assumes "2 * i * b \<le> idx" "idx < 2 * i * b + i"
  shows "idx div i = 2 * b" "idx mod i = idx - 2 * i * b"
proof -
  have e: "idx = (idx - 2 * i * b) + (2 * b) * i"
    using assms by (simp add: mult.commute mult.left_commute)
  have l: "idx - 2 * i * b < i"
    using assms by simp
  show "idx div i = 2 * b"
    by (subst e) (use l in simp)
  show "idx mod i = idx - 2 * i * b"
    by (subst e) (use l in simp)
qed

lemma block_index_hi:
  fixes i b idx :: nat
  assumes "2 * i * b + i \<le> idx" "idx < 2 * i * b + 2 * i"
  shows "idx div i = 2 * b + 1" "idx mod i = idx - i - 2 * i * b"
proof -
  have e: "idx = (idx - i - 2 * i * b) + (2 * b + 1) * i"
    using assms by (simp add: algebra_simps)
  have l: "idx - i - 2 * i * b < i"
    using assms by simp
  show "idx div i = 2 * b + 1"
    by (subst e) (use l in \<open>simp del: mult_Suc\<close>)
  show "idx mod i = idx - i - 2 * i * b"
    by (subst e) (use l in \<open>simp del: mult_Suc\<close>)
qed

lemma length_stage: "length (stage w i I v) = length v"
  by (simp add: stage_def)

lemma nth_stage:
  "idx < length v \<Longrightarrow> stage w i I v ! idx =
     (if even (idx div i)
      then bf_lo (v ! idx) (v ! (idx + i)) (w ! (I * (idx mod i)))
      else bf_hi (v ! (idx - i)) (v ! idx) (w ! (I * (idx mod i))))"
  by (simp add: stage_def)

lemma ntt_j_inv:
  assumes i: "0 < i" and lv: "length v = 2 * i * nb"
  shows "b0 \<le> nb \<Longrightarrow> length y = 2 * i * nb \<Longrightarrow>
    (\<And>idx. idx < 2 * i * nb \<Longrightarrow>
       y ! idx = (if idx < 2 * i * b0 then stage w i I v ! idx else v ! idx)) \<Longrightarrow>
    ntt_j w (2 * i * nb) i I (2 * i * b0) y = Some (stage w i I v)"
proof (induction "nb - b0" arbitrary: b0 y)
  case 0
  then have b0: "b0 = nb"
    by simp
  have "y = stage w i I v"
    using 0(3,4) lv b0 by (intro nth_equalityI) (simp_all add: length_stage)
  then show ?case
    using b0 by (subst ntt_j.simps) simp
next
  case (Suc d)
  then have b0: "b0 < nb"
    by simp
  define j where "j = 2 * i * b0"
  have jn: "j + 2 * i \<le> 2 * i * nb"
  proof -
    have "2 * i * Suc b0 \<le> 2 * i * nb"
      using b0 by (intro mult_le_mono2) simp
    then show ?thesis
      by (simp add: j_def)
  qed
  define y' where "y' = ntt_k w i I j 0 y"
  have unf: "ntt_j w (2 * i * nb) i I j y = ntt_j w (2 * i * nb) i I (j + 2 * i) y'"
    using jn i by (subst ntt_j.simps) (simp add: y'_def)
  have spec: "length y' = length y \<and>
    (\<forall>idx<length y. y' ! idx =
       (if j + 0 \<le> idx \<and> idx < j + i
        then bf_lo (y ! idx) (y ! (idx + i)) (w ! (I * (idx - j)))
        else if j + i + 0 \<le> idx \<and> idx < j + 2 * i
        then bf_hi (y ! (idx - i)) (y ! idx) (w ! (I * (idx - i - j)))
        else y ! idx))"
    unfolding y'_def using i jn Suc.prems(2) by (intro ntt_k_spec) simp_all
  have yv: "y ! x = v ! x" if "j \<le> x" "x < 2 * i * nb" for x
    using that Suc.prems(3) [of x] by (simp add: j_def)
  have "ntt_j w (2 * i * nb) i I (2 * i * Suc b0) y' = Some (stage w i I v)"
  proof (rule Suc.hyps(1))
    show "d = nb - Suc b0"
      using Suc.hyps(2) by simp
    show "Suc b0 \<le> nb"
      using b0 by simp
    show "length y' = 2 * i * nb"
      using spec Suc.prems(2) by simp
    fix idx
    assume idx: "idx < 2 * i * nb"
    then have r: "y' ! idx =
       (if j \<le> idx \<and> idx < j + i
        then bf_lo (y ! idx) (y ! (idx + i)) (w ! (I * (idx - j)))
        else if j + i \<le> idx \<and> idx < j + 2 * i
        then bf_hi (y ! (idx - i)) (y ! idx) (w ! (I * (idx - i - j)))
        else y ! idx)"
      using spec Suc.prems(2) by simp
    have n2: "2 * i * Suc b0 = j + 2 * i"
      by (simp add: j_def)
    have "y' ! idx = (if idx < j + 2 * i then stage w i I v ! idx else v ! idx)"
    proof (cases "idx < j")
      case True
      then show ?thesis
        using r Suc.prems(3) [OF idx] by (simp add: j_def)
    next
      case False
      note ge = this
      show ?thesis
      proof (cases "idx < j + i")
        case True
        then have d: "idx div i = 2 * b0" "idx mod i = idx - j"
          using ge block_index_lo [of i b0 idx] by (simp_all add: j_def)
        have "y ! idx = v ! idx" "y ! (idx + i) = v ! (idx + i)"
          using ge True jn by (simp_all add: yv)
        then show ?thesis
          using r ge True idx lv i by (simp add: nth_stage d)
      next
        case False
        note ge2 = this
        show ?thesis
        proof (cases "idx < j + 2 * i")
          case True
          then have d: "idx div i = 2 * b0 + 1" "idx mod i = idx - i - j"
            using ge2 block_index_hi [of i b0 idx] by (simp_all add: j_def)
          have "y ! idx = v ! idx" "y ! (idx - i) = v ! (idx - i)"
            using ge ge2 True idx by (simp_all add: yv)
          then show ?thesis
            using r ge ge2 True idx lv i by (simp add: nth_stage d)
        next
          case False
          then show ?thesis
            using r ge ge2 idx by (simp add: yv)
        qed
      qed
    qed
    then show "y' ! idx = (if idx < 2 * i * Suc b0 then stage w i I v ! idx else v ! idx)"
      unfolding n2 .
  qed
  then show ?case
    using unf by (simp add: j_def add.commute)
qed

lemma ntt_j_stage:
  assumes "0 < i" "length v = 2 * i * nb"
  shows "ntt_j w (2 * i * nb) i I 0 v = Some (stage w i I v)"
  using ntt_j_inv [OF assms, of 0 v w I] assms(2) by simp

subsection \<open>The invariant of the transform\<close>

lemma merge_lo:
  fixes W :: "'a::comm_ring_1"
  assumes "\<And>u. u < m \<Longrightarrow> c (2 * u) = a u" "\<And>u. u < m \<Longrightarrow> c (2 * u + 1) = b u"
  shows "(\<Sum>u<m. a u * (W ^ 2) ^ (u * k)) + W ^ k * (\<Sum>u<m. b u * (W ^ 2) ^ (u * k))
         = (\<Sum>u<2 * m. c u * W ^ (u * k))"
proof -
  have e: "c (2 * u) * W ^ (2 * u * k) = a u * (W ^ 2) ^ (u * k)" if "u < m" for u
    using that assms(1) by (simp add: power_mult [symmetric] mult.assoc)
  have o: "c (2 * u + 1) * W ^ ((2 * u + 1) * k) = W ^ k * (b u * (W ^ 2) ^ (u * k))"
    if "u < m" for u
  proof -
    have "(2 * u + 1) * k = 2 * (u * k) + k"
      by (simp add: algebra_simps)
    then show ?thesis
      using that assms(2) by (simp add: power_add power_mult)
  qed
  have "(\<Sum>u<2 * m. c u * W ^ (u * k))
      = (\<Sum>u<m. c (2 * u) * W ^ (2 * u * k)) + (\<Sum>u<m. c (2 * u + 1) * W ^ ((2 * u + 1) * k))"
    by (rule sum_even_odd)
  also have "(\<Sum>u<m. c (2 * u) * W ^ (2 * u * k)) = (\<Sum>u<m. a u * (W ^ 2) ^ (u * k))"
    by (rule sum.cong) (simp_all only: e lessThan_iff)
  also have "(\<Sum>u<m. c (2 * u + 1) * W ^ ((2 * u + 1) * k))
      = (\<Sum>u<m. W ^ k * (b u * (W ^ 2) ^ (u * k)))"
    by (rule sum.cong) (simp_all only: o lessThan_iff)
  finally show ?thesis
    by (simp only: sum_distrib_left)
qed

lemma merge_hi:
  fixes W :: "'a::comm_ring_1"
  assumes "\<And>u. u < m \<Longrightarrow> c (2 * u) = a u" "\<And>u. u < m \<Longrightarrow> c (2 * u + 1) = b u"
    and W: "W ^ m = - 1"
  shows "(\<Sum>u<m. a u * (W ^ 2) ^ (u * k)) - W ^ k * (\<Sum>u<m. b u * (W ^ 2) ^ (u * k))
         = (\<Sum>u<2 * m. c u * W ^ (u * (k + m)))"
proof -
  have W2: "W ^ (2 * (u * m)) = 1" for u
  proof -
    have "W ^ (2 * (u * m)) = (W ^ m) ^ (2 * u)"
      by (simp only: power_mult [symmetric] mult_ac)
    then show ?thesis
      by (simp add: W)
  qed
  have e: "c (2 * u) * W ^ (2 * u * (k + m)) = a u * (W ^ 2) ^ (u * k)" if "u < m" for u
  proof -
    have "2 * u * (k + m) = 2 * (u * k) + 2 * (u * m)"
      by (simp add: algebra_simps)
    then have "W ^ (2 * u * (k + m)) = W ^ (2 * (u * k)) * W ^ (2 * (u * m))"
      by (simp only: power_add)
    also have "\<dots> = (W ^ 2) ^ (u * k)"
      by (simp only: W2 mult_1_right) (simp only: power_mult)
    finally show ?thesis
      using that assms(1) by simp
  qed
  have o: "c (2 * u + 1) * W ^ ((2 * u + 1) * (k + m)) = - (W ^ k * (b u * (W ^ 2) ^ (u * k)))"
    if "u < m" for u
  proof -
    have "(2 * u + 1) * (k + m) = 2 * (u * k) + k + 2 * (u * m) + m"
      by (simp add: algebra_simps)
    then have "W ^ ((2 * u + 1) * (k + m))
        = W ^ (2 * (u * k)) * W ^ k * W ^ (2 * (u * m)) * W ^ m"
      by (simp only: power_add)
    also have "\<dots> = - (W ^ k * (W ^ 2) ^ (u * k))"
      by (simp only: W2 W mult_1_right) (simp add: power_mult)
    finally show ?thesis
      using that assms(2) by simp
  qed
  have "(\<Sum>u<2 * m. c u * W ^ (u * (k + m)))
      = (\<Sum>u<m. c (2 * u) * W ^ (2 * u * (k + m)))
        + (\<Sum>u<m. c (2 * u + 1) * W ^ ((2 * u + 1) * (k + m)))"
    by (rule sum_even_odd)
  also have "(\<Sum>u<m. c (2 * u) * W ^ (2 * u * (k + m))) = (\<Sum>u<m. a u * (W ^ 2) ^ (u * k))"
    by (rule sum.cong) (simp_all only: e lessThan_iff)
  also have "(\<Sum>u<m. c (2 * u + 1) * W ^ ((2 * u + 1) * (k + m)))
      = (\<Sum>u<m. - (W ^ k * (b u * (W ^ 2) ^ (u * k))))"
    by (rule sum.cong) (simp_all only: o lessThan_iff)
  finally show ?thesis
    by (simp only: sum_negf sum_distrib_left) simp
qed

lemma stage_step:
  assumes s: "s < K" and inv: "ntt_inv K \<omega> y0 s y" and tab: "good_table K \<omega> w"
    and root: "\<omega> ^ (2 ^ (K - 1)) = - 1"
  shows "ntt_inv K \<omega> y0 (Suc s) (stage w (2 ^ s) (2 ^ (K - 1 - s)) y)"
proof -
  define i :: nat where "i = 2 ^ s"
  define I :: nat where "I = 2 ^ (K - 1 - s)"
  define W where "W = \<omega> ^ I"
  define y' where "y' = stage w i I y"
  have i0: "0 < i"
    by (simp add: i_def)
  have Ii: "I * i = 2 ^ (K - 1)"
    using s by (simp add: I_def i_def power_add [symmetric])
  have n: "2 * (I * i) = 2 ^ K"
    using s Ii by (cases K) simp_all
  have len: "length y = 2 ^ K" and bound: "\<And>idx. idx < 2 ^ K \<Longrightarrow> unat (y ! idx) < modP"
    using inv by (simp_all add: ntt_inv_def)
  have W2: "\<omega> ^ (2 ^ (K - s)) = W ^ 2"
  proof -
    have "K - s = Suc (K - 1 - s)"
      using s by simp
    then have "2 ^ (K - s) = I * 2"
      by (simp add: I_def)
    then show ?thesis
      by (simp only: W_def power_mult)
  qed
  have W1: "\<omega> ^ (2 ^ (K - Suc s)) = W"
    by (simp add: W_def I_def)
  have Wi: "W ^ i = - 1"
    by (simp only: W_def power_mult [symmetric] Ii root)
  have old: "val (y ! (i * b + k)) = (\<Sum>u<i. val (y0 ! (i * b + brev s u)) * (W ^ 2) ^ (u * k))"
    if "b < 2 * I" "k < i" for b k
  proof -
    have "K - s = Suc (K - 1 - s)"
      using s by simp
    then have "b < 2 ^ (K - s)"
      using that(1) by (simp add: I_def)
    then show ?thesis
      using inv that(2) by (simp add: ntt_inv_def i_def W2)
  qed
  have tw: "unat (w ! (I * k)) < modP \<and> val (w ! (I * k)) = W ^ k" if "k < i" for k
  proof -
    have "0 < I"
      by (simp add: I_def)
    then have "I * k < I * i"
      using that by simp
    then have "I * k < 2 ^ K"
      using n by linarith
    then show ?thesis
      using tab by (simp add: good_table_def W_def power_mult)
  qed
  have "length y' = 2 ^ K"
    by (simp add: y'_def length_stage len)
  moreover have "unat (y' ! idx) < modP" if "idx < 2 ^ K" for idx
  proof -
    have "idx mod i < i"
      using i0 by simp
    then have t: "unat (w ! (I * (idx mod i))) < modP"
      using tw by simp
    have "idx - i < 2 ^ K"
      using that by simp
    then show ?thesis
      using that len bound t by (simp add: y'_def nth_stage bf_lo_less bf_hi_less)
  qed
  moreover have "val (y' ! (2 ^ Suc s * b + k)) =
      (\<Sum>u<2 ^ Suc s. val (y0 ! (2 ^ Suc s * b + brev (Suc s) u)) * (\<omega> ^ (2 ^ (K - Suc s))) ^ (u * k))"
    if b: "b < 2 ^ (K - Suc s)" and k: "k < 2 ^ Suc s" for b k
  proof -
    have bI: "b < I"
      using b by (simp add: I_def)
    define idx where "idx = 2 * i * b + k"
    have k2: "k < 2 * i"
      using k by (simp add: i_def)
    have "2 * i * b + 2 * i \<le> 2 * i * I"
    proof -
      have "2 * i * Suc b \<le> 2 * i * I"
        using bI by (intro mult_le_mono2) simp
      then show ?thesis
        by simp
    qed
    then have idxn: "idx < 2 ^ K" "2 * i * b + 2 * i \<le> 2 ^ K"
      using k2 n by (simp_all add: idx_def mult.commute mult.left_commute)
    define c where "c u = val (y0 ! (2 * i * b + brev (Suc s) u))" for u
    define a where "a u = val (y0 ! (i * (2 * b) + brev s u))" for u
    define d where "d u = val (y0 ! (i * (2 * b + 1) + brev s u))" for u
    have ce: "c (2 * u) = a u" for u
      by (simp add: c_def a_def brev_even mult.assoc mult.left_commute)
    have co: "c (2 * u + 1) = d u" for u
      by (simp only: c_def d_def brev_odd i_def) (simp add: algebra_simps)
    have goal: "val (y' ! idx) = (\<Sum>u<2 * i. c u * W ^ (u * k))"
    proof (cases "k < i")
      case True
      then have dv: "idx div i = 2 * b" "idx mod i = k"
        using block_index_lo [of i b idx] by (simp_all add: idx_def)
      have "y' ! idx = bf_lo (y ! idx) (y ! (idx + i)) (w ! (I * k))"
        using idxn len by (simp add: y'_def nth_stage dv)
      then have A: "val (y' ! idx) = val (y ! idx) + val (y ! (idx + i)) * W ^ k"
        using bound [OF idxn(1)] tw [OF True] by (simp add: val_bf_lo)
      have yl: "y ! idx = y ! (i * (2 * b) + k)" "y ! (idx + i) = y ! (i * (2 * b + 1) + k)"
        by (simp_all add: idx_def algebra_simps)
      have E: "val (y ! (i * (2 * b) + k)) = (\<Sum>u<i. a u * (W ^ 2) ^ (u * k))"
        unfolding a_def by (rule old) (use bI True in simp_all)
      have O: "val (y ! (i * (2 * b + 1) + k)) = (\<Sum>u<i. d u * (W ^ 2) ^ (u * k))"
        unfolding d_def by (rule old) (use bI True in simp_all)
      have "val (y' ! idx) =
          (\<Sum>u<i. a u * (W ^ 2) ^ (u * k)) + W ^ k * (\<Sum>u<i. d u * (W ^ 2) ^ (u * k))"
        by (simp only: A yl E O mult.commute [of _ "W ^ k"])
      then show ?thesis
        using merge_lo [of i c a d W k] ce co by simp
    next
      case False
      define k' where "k' = k - i"
      have k': "k' < i" "k = k' + i"
        using False k2 by (simp_all add: k'_def)
      have dv: "idx div i = 2 * b + 1" "idx mod i = k'"
        using block_index_hi [of i b idx] False k2 by (simp_all add: idx_def k'_def)
      have "y' ! idx = bf_hi (y ! (idx - i)) (y ! idx) (w ! (I * k'))"
        using idxn len by (simp add: y'_def nth_stage dv)
      moreover have "idx - i < 2 ^ K"
        using idxn by simp
      ultimately have A: "val (y' ! idx) = val (y ! (idx - i)) - val (y ! idx) * W ^ k'"
        using bound [of "idx - i"] tw [OF k'(1)] by (simp add: val_bf_hi)
      have yl: "y ! (idx - i) = y ! (i * (2 * b) + k')" "y ! idx = y ! (i * (2 * b + 1) + k')"
        using k' by (simp_all add: idx_def algebra_simps)
      have E: "val (y ! (i * (2 * b) + k')) = (\<Sum>u<i. a u * (W ^ 2) ^ (u * k'))"
        unfolding a_def by (rule old) (use bI k' in simp_all)
      have O: "val (y ! (i * (2 * b + 1) + k')) = (\<Sum>u<i. d u * (W ^ 2) ^ (u * k'))"
        unfolding d_def by (rule old) (use bI k' in simp_all)
      have "val (y' ! idx) =
          (\<Sum>u<i. a u * (W ^ 2) ^ (u * k')) - W ^ k' * (\<Sum>u<i. d u * (W ^ 2) ^ (u * k'))"
        by (simp only: A yl E O mult.commute [of _ "W ^ k'"])
      then show ?thesis
        using merge_hi [of i c a d W k'] ce co Wi k'(2) by simp
    qed
    have "2 ^ Suc s * b + k = idx"
      by (simp add: idx_def i_def)
    then show ?thesis
      using goal unfolding W1 c_def y'_def i_def I_def by simp
  qed
  ultimately show ?thesis
    unfolding ntt_inv_def y'_def i_def I_def by blast
qed

subsection \<open>The transform computes a discrete Fourier transform\<close>

lemma ntt_i_all:
  assumes tab: "good_table K \<omega> w" and root: "\<omega> ^ (2 ^ (K - 1)) = - 1"
  shows "s \<le> K \<Longrightarrow> ntt_inv K \<omega> y0 s y \<Longrightarrow>
    \<exists>y'. ntt_i w (2 ^ K) (2 ^ s) (if s < K then 2 ^ (K - 1 - s) else 0) y = Some y'
         \<and> ntt_inv K \<omega> y0 K y'"
proof (induction "K - s" arbitrary: s y)
  case 0
  then have "s = K"
    by simp
  then show ?case
    using 0(3) by (subst ntt_i.simps) simp
next
  case (Suc d)
  then have s: "s < K"
    by simp
  define I :: nat where "I = 2 ^ (K - 1 - s)"
  have n: "(2::nat) ^ K = 2 * 2 ^ s * I"
  proof -
    have "K = Suc (s + (K - 1 - s))"
      using s by simp
    then have "(2::nat) ^ K = 2 ^ Suc (s + (K - 1 - s))"
      by simp
    then show ?thesis
      by (simp only: I_def power_Suc power_add mult.assoc)
  qed
  have len: "length y = 2 * 2 ^ s * I"
    using Suc.prems(2) n by (simp add: ntt_inv_def)
  have j: "ntt_j w (2 ^ K) (2 ^ s) I 0 y = Some (stage w (2 ^ s) I y)"
    unfolding n by (rule ntt_j_stage) (simp_all add: len)
  have I2: "I div 2 = (if Suc s < K then 2 ^ (K - 1 - Suc s) else 0)"
  proof (cases "Suc s < K")
    case True
    then have "K - 1 - s = Suc (K - 1 - Suc s)"
      by simp
    then show ?thesis
      using True by (simp add: I_def)
  next
    case False
    then have "K - 1 - s = 0"
      using s by simp
    then show ?thesis
      using False by (simp add: I_def)
  qed
  have I0: "I \<noteq> 0"
    by (simp add: I_def)
  have unf: "ntt_i w (2 ^ K) (2 ^ s) I y
      = ntt_i w (2 ^ K) (2 ^ Suc s) (if Suc s < K then 2 ^ (K - 1 - Suc s) else 0)
          (stage w (2 ^ s) I y)"
    using I0 by (subst ntt_i.simps) (simp add: j I2)
  have "ntt_inv K \<omega> y0 (Suc s) (stage w (2 ^ s) I y)"
    unfolding I_def using s Suc.prems(2) tab root by (rule stage_step)
  moreover have "d = K - Suc s" "Suc s \<le> K"
    using Suc.hyps(2) s by simp_all
  ultimately have "\<exists>y'. ntt_i w (2 ^ K) (2 ^ Suc s) (if Suc s < K then 2 ^ (K - 1 - Suc s) else 0)
        (stage w (2 ^ s) I y) = Some y' \<and> ntt_inv K \<omega> y0 K y'"
    by (intro Suc.hyps(1)) 
  then show ?case
    using unf s by (simp add: I_def)
qed

lemma ntt_inv_start:
  assumes "length y0 = 2 ^ K" "\<And>idx. idx < 2 ^ K \<Longrightarrow> unat (y0 ! idx) < modP"
  shows "ntt_inv K \<omega> y0 0 y0"
  using assms by (simp add: ntt_inv_def)

lemma ntt_core:
  assumes K: "0 < K" and len: "length v0 = 2 ^ K"
    and bound: "\<And>idx. idx < 2 ^ K \<Longrightarrow> unat (v0 ! idx) < modP"
    and tab: "good_table K \<omega> w" and root: "\<omega> ^ (2 ^ (K - 1)) = - 1"
  shows "\<exists>y. ntt_i w (2 ^ K) 1 (2 ^ K div 2) (bitrev_loop (2 ^ K) 0 0 v0) = Some y
    \<and> length y = 2 ^ K
    \<and> (\<forall>k<2 ^ K. unat (y ! k) < modP \<and> val (y ! k) = (\<Sum>u<2 ^ K. val (v0 ! u) * \<omega> ^ (u * k)))"
proof -
  define y0 where "y0 = bitrev_loop (2 ^ K) 0 0 v0"
  have y0: "y0 = map (\<lambda>idx. v0 ! brev K idx) [0..<2 ^ K]"
    unfolding y0_def using len by (rule bitrev_loop_eq)
  have nth0: "y0 ! idx = v0 ! brev K idx" if "idx < 2 ^ K" for idx
    using that by (simp add: y0)
  have "ntt_inv K \<omega> y0 0 y0"
  proof (rule ntt_inv_start)
    show "length y0 = 2 ^ K"
      by (simp add: y0)
    show "unat (y0 ! idx) < modP" if "idx < 2 ^ K" for idx
      using that bound [OF brev_less [of K idx]] by (simp add: nth0)
  qed
  then have "\<exists>y'. ntt_i w (2 ^ K) (2 ^ 0) (if 0 < K then 2 ^ (K - 1 - 0) else 0) y0 = Some y'
         \<and> ntt_inv K \<omega> y0 K y'"
    using tab root by (intro ntt_i_all) simp_all
  moreover have "(2::nat) ^ K div 2 = 2 ^ (K - 1)"
    using K by (cases K) simp_all
  ultimately obtain y where y: "ntt_i w (2 ^ K) 1 (2 ^ K div 2) y0 = Some y"
      and inv: "ntt_inv K \<omega> y0 K y"
    using K by auto
  have "unat (y ! k) < modP \<and> val (y ! k) = (\<Sum>u<2 ^ K. val (v0 ! u) * \<omega> ^ (u * k))"
    if k: "k < 2 ^ K" for k
  proof -
    have "val (y ! (2 ^ K * 0 + k)) =
        (\<Sum>u<2 ^ K. val (y0 ! (2 ^ K * 0 + brev K u)) * (\<omega> ^ (2 ^ (K - K))) ^ (u * k))"
      using inv k unfolding ntt_inv_def by (elim conjE allE [of _ 0] allE [of _ k] impE) simp_all
    then have "val (y ! k) = (\<Sum>u<2 ^ K. val (y0 ! brev K u) * \<omega> ^ (u * k))"
      by simp
    also have "\<dots> = (\<Sum>u<2 ^ K. val (v0 ! u) * \<omega> ^ (u * k))"
    proof (rule sum.cong)
      fix u :: nat
      assume "u \<in> {..<2 ^ K}"
      then have u: "u < 2 ^ K"
        by simp
      have "y0 ! brev K u = v0 ! brev K (brev K u)"
        using brev_less [of K u] by (rule nth0)
      then show "val (y0 ! brev K u) * \<omega> ^ (u * k) = val (v0 ! u) * \<omega> ^ (u * k)"
        using brev_involution [OF u] by simp
    qed simp
    finally show ?thesis
      using inv k by (simp add: ntt_inv_def)
  qed
  moreover have "length y = 2 ^ K"
    using inv by (simp add: ntt_inv_def)
  ultimately show ?thesis
    using y unfolding y0_def by blast
qed

subsection \<open>The tables of powers\<close>

lemma w_table_spec:
  assumes g: "unat g < modP"
  shows "length (w_table g n) = n \<and> (\<forall>t<n. unat (w_table g n ! t) = unat g ^ t mod modP)"
proof (induction n)
  case 0
  show ?case by simp
next
  case (Suc n)
  define w where "w = w_table g n"
  have len: "length w = n" and old: "\<And>t. t < n \<Longrightarrow> unat (w ! t) = unat g ^ t mod modP"
    using Suc by (simp_all add: w_def)
  define x where "x = (if n \<noteq> 0 then w ! (n - 1) * g mod BigInteger_mod else 1)"
  have tab: "w_table g (Suc n) = w @ [x]"
    by (simp add: w_def x_def Let_def)
  have x: "unat x = unat g ^ n mod modP"
  proof (cases "n = 0")
    case True
    then show ?thesis
      by (simp add: x_def)
  next
    case False
    then have p: "unat (w ! (n - 1)) = unat g ^ (n - 1) mod modP"
      by (intro old) simp
    then have "unat (w ! (n - 1)) < 2 ^ 32"
      by (simp add: less_trans [OF mod_less_divisor])
    moreover have "unat g < 2 ^ 32"
      using g by simp
    ultimately have "unat x = (unat (w ! (n - 1)) * unat g) mod modP"
      using False by (simp add: x_def mulmod_unat)
    also have "\<dots> = (unat g ^ (n - 1) mod modP * unat g) mod modP"
      by (simp only: p)
    also have "\<dots> = (unat g ^ (n - 1) * unat g) mod modP"
      by (simp add: mod_mult_left_eq)
    also have "unat g ^ (n - 1) * unat g = unat g ^ n"
      using False by (cases n) simp_all
    finally show ?thesis .
  qed
  have "unat ((w @ [x]) ! t) = unat g ^ t mod modP" if "t < Suc n" for t
    using that old x len by (cases "t = n") (simp_all add: nth_append)
  then show ?case
    unfolding tab by (simp add: len)
qed

lemma val_power_mod: "val (x :: u64) = of_nat (unat x)"
  by (simp add: val_def)

lemma good_table_forward:
  assumes "unat g < modP"
  shows "good_table K (val g) (w_table g (2 ^ K))"
  using w_table_spec [OF assms, of "2 ^ K"]
  by (simp add: good_table_def val_def of_nat_mod_P)

lemma good_table_inverse:
  assumes g: "unat g < modP" and K: "0 < K" and root: "val g ^ (2 ^ (K - 1)) = - 1"
  shows "good_table K (val g ^ (2 ^ K - 1))
           (take 1 (w_table g (2 ^ K)) @ rev (drop 1 (w_table g (2 ^ K))))"
proof -
  define n :: nat where "n = 2 ^ K"
  define w0 where "w0 = w_table g n"
  have n2: "2 \<le> n"
    using K by (cases K) (simp_all add: n_def)
  have len: "length w0 = n" and tab: "\<And>t. t < n \<Longrightarrow> unat (w0 ! t) = unat g ^ t mod modP"
    using w_table_spec [OF g, of n] by (simp_all add: w0_def)
  have full: "val g ^ n = 1"
    using root_pow_full [OF root] K by (simp add: n_def)
  have v: "val (w0 ! t) = val g ^ t" if "t < n" for t
    using tab [OF that] by (simp add: val_def of_nat_mod_P)
  have b: "unat (w0 ! t) < modP" if "t < n" for t
    using tab [OF that] by simp
  let ?w = "take 1 w0 @ rev (drop 1 w0)"
  have "unat (?w ! t) < modP \<and> val (?w ! t) = (val g ^ (n - 1)) ^ t" if t: "t < n" for t
  proof (cases "t = 0")
    case True
    have "?w ! 0 = w0 ! 0"
      using len n2 by (cases w0) simp_all
    then show ?thesis
      using True v [of 0] b [of 0] n2 by simp
  next
    case False
    have l1: "length (take 1 w0) = 1"
      using len n2 by simp
    have "?w ! t = rev (drop 1 w0) ! (t - 1)"
      using False l1 by (simp add: nth_append)
    also have "\<dots> = drop 1 w0 ! (length (drop 1 w0) - Suc (t - 1))"
      using t False len by (intro rev_nth) simp
    also have "\<dots> = w0 ! (1 + (n - 1 - t))"
      using t False len by simp
    also have "1 + (n - 1 - t) = n - t"
      using t False by simp
    finally have e: "?w ! t = w0 ! (n - t)" .
    have "(n - 1) * t = (n - t) + n * (t - 1)"
    proof -
      have "int ((n - 1) * t) = int ((n - t) + n * (t - 1))"
        using t False n2 by (simp add: of_nat_diff algebra_simps)
      then show ?thesis
        by (simp only: of_nat_eq_iff)
    qed
    then have "(val g ^ (n - 1)) ^ t = val g ^ (n - t) * (val g ^ n) ^ (t - 1)"
      by (simp only: power_mult [symmetric] power_add)
    then have "(val g ^ (n - 1)) ^ t = val g ^ (n - t)"
      by (simp add: full)
    then show ?thesis
      using e v [of "n - t"] b [of "n - t"] t False by simp
  qed
  then show ?thesis
    unfolding good_table_def n_def w0_def by blast
qed

lemma inverse_root:
  fixes w :: "'a::comm_ring_1"
  assumes "0 < K" "w ^ (2 ^ (K - 1)) = - 1"
  shows "(w ^ (2 ^ K - 1)) ^ (2 ^ (K - 1)) = - 1"
proof -
  have "odd (2 ^ K - 1 :: nat)"
    using assms(1) by simp
  have "(w ^ (2 ^ K - 1)) ^ (2 ^ (K - 1)) = (w ^ (2 ^ (K - 1))) ^ (2 ^ K - 1)"
    by (simp only: power_mult [symmetric] mult.commute)
  also have "\<dots> = (- 1) ^ (2 ^ K - 1)"
    by (simp only: assms(2))
  also have "\<dots> = - 1"
    using \<open>odd (2 ^ K - 1 :: nat)\<close> by (rule power_minus_odd [of _ 1, simplified])
  finally show ?thesis .
qed

subsection \<open>The root of unity and the inverse of the length\<close>

lemma P_div_pow2:
  assumes "K \<le> 30" "1 \<le> K"
  shows "modP div 2 ^ K = 3 * 2 ^ (30 - K)"
proof -
  have e: "(2::nat) ^ (30 - K) * 2 ^ K = 2 ^ 30"
    using assms by (simp add: power_add [symmetric])
  have p: "modP = 3 * 2 ^ (30 - K) * 2 ^ K + 1"
    using e by (simp add: mult.commute)
  have "(1::nat) < 2 ^ K"
    using assms by (metis One_nat_def Suc_le_lessD one_less_numeral_iff one_less_power semiring_norm(76))
  then show ?thesis
    by (subst p, intro div_nat_eqI) (simp_all add: mult.commute)
qed

lemma unat_drop_bit_mod:
  assumes "K \<le> 30" "1 \<le> K"
  shows "unat (drop_bit K BigInteger_mod) = 3 * 2 ^ (30 - K)"
proof -
  have "unat (drop_bit K BigInteger_mod) = modP div 2 ^ K"
    unfolding unat_drop_bit_eq unat_mod_P by (simp add: drop_bit_eq_div)
  then show ?thesis
    using P_div_pow2 [OF assms] by simp
qed

lemma Zp_minus_one: "(of_nat 3221225472 :: Zp) = - 1"
proof -
  have "(of_nat 3221225472 :: Zp) + 1 = of_nat modP"
    by simp
  then have "(of_nat 3221225472 :: Zp) + 1 = 0"
    by (simp only: of_nat_P)
  then show ?thesis
    by (simp only: add_eq_0_iff2)
qed

lemma root_order:
  assumes K: "1 \<le> K" "K \<le> 30"
  shows "unat (modpow BigInteger_root (drop_bit K BigInteger_mod)) < modP"
    and "val (modpow BigInteger_root (drop_bit K BigInteger_mod)) ^ (2 ^ (K - 1)) = - 1"
proof -
  define R where "R = unat BigInteger_root"
  define E1 where "E1 = unat (drop_bit 1 BigInteger_mod)"
  define E where "E = unat (drop_bit K BigInteger_mod)"
  have RP: "unat BigInteger_root < modP"
    by (simp add: BigInteger_root_def)
  have g: "unat (modpow BigInteger_root (drop_bit K BigInteger_mod)) = R ^ E mod modP"
    unfolding R_def E_def by (rule modpow_correct [OF RP])
  show "unat (modpow BigInteger_root (drop_bit K BigInteger_mod)) < modP"
    unfolding g by simp
  have fp: "R ^ E1 mod modP = 3221225472"
    unfolding R_def E1_def by (rule five_pow)
  have E: "E = 3 * 2 ^ (30 - K)"
    unfolding E_def using K by (intro unat_drop_bit_mod) simp_all
  have E1: "E1 = 3 * 2 ^ 29"
    unfolding E1_def using unat_drop_bit_mod [of 1] by simp
  have "(30 - K) + (K - 1) = 29"
    using K by simp
  then have "(2::nat) ^ (30 - K) * 2 ^ (K - 1) = 2 ^ 29"
    by (simp only: power_add [symmetric])
  then have EE: "E * 2 ^ (K - 1) = E1"
    unfolding E E1 by (simp add: mult.commute)
  have "val (modpow BigInteger_root (drop_bit K BigInteger_mod)) = (of_nat R :: Zp) ^ E"
    unfolding val_def g by (simp only: of_nat_mod_P of_nat_power)
  then have "val (modpow BigInteger_root (drop_bit K BigInteger_mod)) ^ (2 ^ (K - 1))
      = (of_nat R :: Zp) ^ E1"
    by (simp only: power_mult [symmetric] EE)
  also have "\<dots> = of_nat (R ^ E1 mod modP)"
    by (simp only: of_nat_mod_P of_nat_power)
  also have "\<dots> = - 1"
    by (simp only: fp Zp_minus_one)
  finally show "val (modpow BigInteger_root (drop_bit K BigInteger_mod)) ^ (2 ^ (K - 1)) = - 1" .
qed

lemma modinv_pow2:
  assumes K: "1 \<le> K" "K \<le> 30"
  shows "modinv (int (2 ^ K)) (uint BigInteger_mod) = word_of_int (int modP - 3 * 2 ^ (30 - K))"
proof -
  define q :: int where "q = 3 * 2 ^ (30 - K)"
  define m :: int where "m = 2 ^ K"
  define Pi :: int where "Pi = 3221225473"
  have uP: "uint BigInteger_mod = Pi"
    by (simp add: BigInteger_mod_def Pi_def)
  have e: "(2::int) ^ (30 - K) * 2 ^ K = 2 ^ 30"
    using K by (simp add: power_add [symmetric])
  have p: "Pi = q * m + 1"
    unfolding q_def m_def Pi_def using e by (simp add: mult.commute)
  have m1: "1 < m"
    unfolding m_def using K
    by (metis One_nat_def Suc_le_lessD one_less_numeral_iff one_less_power semiring_norm(76))
  have "m \<le> 2 ^ 30"
    unfolding m_def using K by (intro power_increasing) simp_all
  then have mP: "m < Pi"
    by (simp add: Pi_def)
  have d1: "Pi div m = q"
    unfolding p using m1 by simp
  have d2: "Pi mod m = 1"
    unfolding p using m1 by simp
  have s1: "m smod Pi = m" "m sdiv Pi = 0"
    using m1 mP by (simp_all add: signed_modulo_int_def signed_divide_int_def sgn_if)
  have s2: "Pi smod m = 1" "Pi sdiv m = q"
    using m1 mP d1 d2 by (simp_all add: signed_modulo_int_def signed_divide_int_def sgn_if)
  have s3: "m smod 1 = 0"
    by (simp add: signed_modulo_int_def)
  have "modinv_loop 0 1 1 0 m Pi m 0 = modinv_loop 1 0 0 1 Pi m 1 q"
    using m1 by (subst modinv_loop.simps) (simp add: s2)
  also have "\<dots> = modinv_loop (- q) 1 1 0 m 1 0 (m sdiv 1)"
    by (subst modinv_loop.simps) (simp add: s3)
  also have "\<dots> = - q"
    by (subst modinv_loop.simps) simp
  finally have "modinv m Pi = word_of_int (- q + Pi)"
    unfolding modinv_def s1 by simp
  then show ?thesis
    unfolding uP unfolding m_def q_def Pi_def by (simp add: algebra_simps)
qed

lemma modinv_spec:
  assumes K: "1 \<le> K" "K \<le> 30"
  shows "unat (modinv (int (2 ^ K)) (uint BigInteger_mod)) < modP"
    and "val (modinv (int (2 ^ K)) (uint BigInteger_mod)) * of_nat (2 ^ K) = 1"
proof -
  define q :: nat where "q = 3 * 2 ^ (30 - K)"
  have e: "(2::nat) ^ (30 - K) * 2 ^ K = 2 ^ 30"
    using K by (simp add: power_add [symmetric])
  have qm: "q * 2 ^ K = 3221225472"
    unfolding q_def using e by (simp add: mult.commute)
  have "(2::nat) ^ (30 - K) \<le> 2 ^ 30"
    by (intro power_increasing) simp_all
  then have qP: "q < modP" and q0: "0 < q"
    by (simp_all add: q_def)
  have "int modP - 3 * 2 ^ (30 - K) = int (modP - q)"
    using qP by (simp add: q_def of_nat_diff)
  then have mi: "modinv (int (2 ^ K)) (uint BigInteger_mod) = (word_of_nat (modP - q) :: u64)"
    using modinv_pow2 [OF K] by simp
  have u: "unat (word_of_nat (modP - q) :: u64) = modP - q"
    by (simp only: unat_of_nat) simp
  show "unat (modinv (int (2 ^ K)) (uint BigInteger_mod)) < modP"
    unfolding mi u using q0 by simp
  have "val (modinv (int (2 ^ K)) (uint BigInteger_mod)) = (of_nat (modP - q) :: Zp)"
    unfolding mi val_def u ..
  also have "\<dots> = of_nat modP - of_nat q"
    using qP by (simp only: of_nat_diff less_imp_le)
  also have "\<dots> = - of_nat q"
    by (simp only: of_nat_P) simp
  finally have "val (modinv (int (2 ^ K)) (uint BigInteger_mod)) * of_nat (2 ^ K)
      = - (of_nat (q * 2 ^ K) :: Zp)"
    by (simp only: of_nat_mult mult_minus_left)
  also have "\<dots> = 1"
    by (simp only: qm Zp_minus_one) simp
  finally show "val (modinv (int (2 ^ K)) (uint BigInteger_mod)) * of_nat (2 ^ K) = 1" .
qed

subsection \<open>The round trip of the transform\<close>

lemma NTT_forward:
  assumes K: "1 \<le> K" "K \<le> 30" and len: "length v = 2 ^ K"
    and bound: "\<And>idx. idx < 2 ^ K \<Longrightarrow> unat (v ! idx) < modP"
  shows "\<exists>y. NTT v K False = Some y \<and> length y = 2 ^ K
    \<and> (\<forall>k<2 ^ K. unat (y ! k) < modP
          \<and> val (y ! k) = (\<Sum>u<2 ^ K. val (v ! u)
                * val (modpow BigInteger_root (drop_bit K BigInteger_mod)) ^ (u * k)))"
proof -
  define g where "g = modpow BigInteger_root (drop_bit K BigInteger_mod)"
  have g: "unat g < modP" and root: "val g ^ (2 ^ (K - 1)) = - 1"
    unfolding g_def using root_order [OF K] by simp_all
  have K0: "0 < K"
    using K by simp
  have eq: "NTT v K False
      = ntt_i (w_table g (2 ^ K)) (2 ^ K) 1 (2 ^ K div 2) (bitrev_loop (2 ^ K) 0 0 v)"
    by (simp only: NTT_def Let_def len g_def if_False)
  show ?thesis
    unfolding eq g_def [symmetric]
    by (rule ntt_core [OF K0 len bound good_table_forward [OF g] root])
qed

lemma NTT_inverse:
  assumes K: "1 \<le> K" "K \<le> 30" and len: "length v = 2 ^ K"
    and bound: "\<And>idx. idx < 2 ^ K \<Longrightarrow> unat (v ! idx) < modP"
  shows "\<exists>y. NTT v K True = Some y \<and> length y = 2 ^ K
    \<and> (\<forall>k<2 ^ K. unat (y ! k) < modP
          \<and> val (y ! k) = (\<Sum>u<2 ^ K. val (v ! u)
                * val (modinv (int (2 ^ K)) (uint BigInteger_mod))
                * (val (modpow BigInteger_root (drop_bit K BigInteger_mod)) ^ (2 ^ K - 1)) ^ (u * k)))"
proof -
  define g where "g = modpow BigInteger_root (drop_bit K BigInteger_mod)"
  define ninv where "ninv = modinv (int (2 ^ K)) (uint BigInteger_mod)"
  define v0 where "v0 = map (\<lambda>x. ucast (ucast x * ninv mod BigInteger_mod) :: u32) v"
  have g: "unat g < modP" and root: "val g ^ (2 ^ (K - 1)) = - 1"
    unfolding g_def using root_order [OF K] by simp_all
  have ninv: "unat ninv < modP"
    unfolding ninv_def by (rule modinv_spec(1) [OF K])
  have K0: "0 < K"
    using K by simp
  have eq: "NTT v K True
      = ntt_i (take 1 (w_table g (2 ^ K)) @ rev (drop 1 (w_table g (2 ^ K))))
          (2 ^ K) 1 (2 ^ K div 2) (bitrev_loop (2 ^ K) 0 0 v0)"
    by (simp only: NTT_def Let_def len g_def ninv_def v0_def if_True)
  have len0: "length v0 = 2 ^ K"
    by (simp add: v0_def len)
  have sc: "unat (v0 ! idx) = unat (v ! idx) * unat ninv mod modP" if "idx < 2 ^ K" for idx
  proof -
    have "v0 ! idx = ucast (ucast (v ! idx) * ninv mod BigInteger_mod)"
      using that by (simp add: v0_def len)
    moreover have "unat (ucast (v ! idx) * ninv mod BigInteger_mod)
        = unat (v ! idx) * unat ninv mod modP"
      using ninv unat_u32_less [of "v ! idx"]
      by (subst mulmod_unat) (simp_all add: unat_ucast_32_64)
    moreover have "unat (v ! idx) * unat ninv mod modP < 2 ^ 32"
      by (rule less_trans [OF mod_less_divisor]) simp_all
    ultimately show ?thesis
      by (simp add: unat_ucast_64_32)
  qed
  have bound0: "unat (v0 ! idx) < modP" if "idx < 2 ^ K" for idx
    unfolding sc [OF that] by simp
  have val0: "val (v0 ! idx) = val (v ! idx) * val ninv" if "idx < 2 ^ K" for idx
    unfolding val_def sc [OF that] by (simp only: of_nat_mod_P of_nat_mult)
  obtain y where y: "ntt_i (take 1 (w_table g (2 ^ K)) @ rev (drop 1 (w_table g (2 ^ K))))
          (2 ^ K) 1 (2 ^ K div 2) (bitrev_loop (2 ^ K) 0 0 v0) = Some y"
      "length y = 2 ^ K"
      "\<And>k. k < 2 ^ K \<Longrightarrow> unat (y ! k) < modP
          \<and> val (y ! k) = (\<Sum>u<2 ^ K. val (v0 ! u) * (val g ^ (2 ^ K - 1)) ^ (u * k))"
    using ntt_core [OF K0 len0 bound0 good_table_inverse [OF g K0 root] inverse_root [OF K0 root]]
    by blast
  have "val (y ! k) = (\<Sum>u<2 ^ K. val (v ! u) * val ninv * (val g ^ (2 ^ K - 1)) ^ (u * k))"
    if "k < 2 ^ K" for k
    using y(3) [OF that] by (simp add: val0)
  then show ?thesis
    unfolding eq g_def [symmetric] ninv_def [symmetric] using y by blast
qed

lemma NTT_round_trip_aux:
  assumes K: "1 \<le> K" "K \<le> 30" and len: "length v = 2 ^ K"
    and bound: "\<And>idx. idx < 2 ^ K \<Longrightarrow> unat (v ! idx) < modP"
  shows "\<exists>v'. NTT v K False = Some v' \<and> NTT v' K True = Some v"
proof -
  define \<omega> where "\<omega> = val (modpow BigInteger_root (drop_bit K BigInteger_mod))"
  define c where "c = val (modinv (int (2 ^ K)) (uint BigInteger_mod))"
  have root: "\<omega> ^ (2 ^ (K - 1)) = - 1"
    unfolding \<omega>_def by (rule root_order(2) [OF K])
  have c: "c * of_nat (2 ^ K) = 1"
    unfolding c_def by (rule modinv_spec(2) [OF K])
  obtain K' where K': "K = Suc K'"
    using K by (cases K) simp_all
  obtain x where x: "NTT v K False = Some x" "length x = 2 ^ K"
      "\<And>k. k < 2 ^ K \<Longrightarrow> unat (x ! k) < modP"
      "\<And>k. k < 2 ^ K \<Longrightarrow> val (x ! k) = (\<Sum>u<2 ^ K. val (v ! u) * \<omega> ^ (u * k))"
    using NTT_forward [OF K len bound] unfolding \<omega>_def by blast
  obtain y where y: "NTT x K True = Some y" "length y = 2 ^ K"
      "\<And>k. k < 2 ^ K \<Longrightarrow> unat (y ! k) < modP"
      "\<And>k. k < 2 ^ K \<Longrightarrow> val (y ! k)
          = (\<Sum>u<2 ^ K. val (x ! u) * c * (\<omega> ^ (2 ^ K - 1)) ^ (u * k))"
    using NTT_inverse [OF K x(2) x(3)] unfolding \<omega>_def c_def by blast
  have "y ! k = v ! k" if k: "k < 2 ^ K" for k
  proof -
    have "val (y ! k) = (\<Sum>j<2 ^ K. c * (val (x ! j) * (\<omega> ^ (2 ^ K - 1)) ^ (j * k)))"
      unfolding y(4) [OF k] by (simp add: mult_ac)
    also have "\<dots> = c * (\<Sum>j<2 ^ K. val (x ! j) * (\<omega> ^ (2 ^ K - 1)) ^ (j * k))"
      by (simp only: sum_distrib_left)
    also have "(\<Sum>j<2 ^ K. val (x ! j) * (\<omega> ^ (2 ^ K - 1)) ^ (j * k))
        = (\<Sum>j<2 ^ K. (\<Sum>t<2 ^ K. val (v ! t) * \<omega> ^ (t * j)) * (\<omega> ^ (2 ^ K - 1)) ^ (j * k))"
      by (rule sum.cong) (simp_all add: x(4))
    also have "\<dots> = of_nat (2 ^ K) * val (v ! k)"
      using dft_inverse [of \<omega> K' k "\<lambda>t. val (v ! t)"] root k unfolding K' by simp
    also have "c * (of_nat (2 ^ K) * val (v ! k)) = (c * of_nat (2 ^ K)) * val (v ! k)"
      by (simp only: mult.assoc)
    also have "\<dots> = val (v ! k)"
      by (simp only: c mult_1)
    finally show ?thesis
      using val_inject y(3) [OF k] bound [OF k] by blast
  qed
  then have "y = v"
    using y(2) len by (intro nth_equalityI) simp_all
  then show ?thesis
    using x(1) y(1) by simp
qed

text \<open>
  Claim C10. For every \<open>logN\<close> with \<open>1 \<le> logN \<le> 30\<close> and every limb vector of
  length exactly \<open>2 ^ logN\<close> all of whose entries are less than
  \<^verbatim>\<open>BigInteger::mod\<close> \<open>= 3 * 2 ^ 30 + 1\<close>, the forward transform
  \<^verbatim>\<open>NTT_(logN, false)\<close> returns a vector on which the inverse transform
  \<^verbatim>\<open>NTT_(logN, true)\<close> returns the original vector.
\<close>

theorem NTT_round_trip:
  assumes "1 \<le> logN" and "logN \<le> 30" and "length v = 2 ^ logN"
    and "list_all (\<lambda>x. ucast x < BigInteger_mod) v"
  shows "\<exists>v'. NTT v logN False = Some v' \<and> NTT v' logN True = Some v"
proof (rule NTT_round_trip_aux [OF assms(1-3)])
  fix idx :: nat
  assume "idx < 2 ^ logN"
  then have "ucast (v ! idx) < BigInteger_mod"
    using assms(3,4) by (simp add: list_all_length)
  then show "unat (v ! idx) < modP"
    by (simp add: word_less_nat_alt unat_ucast_32_64 unat_mod_P)
qed

text \<open>The round trip at \<open>logN = 1\<close> on the vector \<open>[7, 3221225472]\<close>.\<close>

theorem NTT_round_trip_witness:
  "(1::nat) \<le> 1 \<and> (1::nat) \<le> 30 \<and> length [7, 3221225472 :: u32] = 2 ^ 1
    \<and> list_all (\<lambda>x. ucast x < BigInteger_mod) [7, 3221225472 :: u32]
    \<and> (\<exists>v'. NTT [7, 3221225472] 1 False = Some v' \<and> NTT v' 1 True = Some [7, 3221225472])
    \<and> NTT [7, 3221225472] 1 False = Some [6, 8]
    \<and> NTT [6, 8] 1 True = Some [7, 3221225472]"
proof -
  have a: "list_all (\<lambda>x. ucast x < BigInteger_mod) [7, 3221225472 :: u32]"
    by code_simp
  have b: "length [7, 3221225472 :: u32] = 2 ^ 1"
    by simp
  have c: "NTT [7, 3221225472] 1 False = Some [6, 8]"
    by code_simp
  have d: "NTT [6, 8] 1 True = Some [7, 3221225472]"
    by code_simp
  from NTT_round_trip [OF _ _ b a] have "\<exists>v'. NTT [7, 3221225472] 1 False = Some v'
      \<and> NTT v' 1 True = Some [7, 3221225472]"
    by simp
  with a b c d show ?thesis
    by simp
qed

section \<open>The decimal round trip\<close>

subsection \<open>Reading the digits\<close>

lemma digits_value_snoc: "digits_value (cs @ [c]) = digits_value cs * 10 + digit_val c"
  by (induction cs) (simp_all add: algebra_simps)

lemma le_value_snoc: "le_value b (xs @ [x]) = le_value b xs + b ^ length xs * unat x"
  by (induction xs) (simp_all add: algebra_simps)

lemma peek_good:
  "good s \<Longrightarrow> gpos s < length (buf s) \<Longrightarrow> is_peek s = Inr (Some (buf s ! gpos s), s)"
  by (simp add: is_peek_def)

lemma peek_end:
  "no_exceptions s \<Longrightarrow> good s \<Longrightarrow> length (buf s) \<le> gpos s
   \<Longrightarrow> is_peek s = Inr (None, s\<lparr>eofbit := True\<rparr>)"
  by (simp add: peek_quiet)

lemma get_good:
  "good s \<Longrightarrow> gpos s < length (buf s)
   \<Longrightarrow> is_get s = Inr (Some (buf s ! gpos s), s\<lparr>gpos := gpos s + 1\<rparr>)"
  by (simp add: is_get_def)

lemma drop_Cons_pos:
  assumes "drop p t = c # cs"
  shows "p < length t" and "t ! p = c" and "drop (p + 1) t = cs"
proof -
  show p: "p < length t"
    using assms by (cases "p < length t") simp_all
  from Cons_nth_drop_Suc [OF p] assms show "t ! p = c" and "drop (p + 1) t = cs"
    by simp_all
qed

lemma digit_step:
  fixes v :: u64
  assumes v: "unat v < 10 ^ 8" and c: "isdigit (Some c)"
  shows "unat (v * 10 + int_of_get (Some c) - 48) = unat v * 10 + digit_val c"
proof -
  have k: "48 \<le> (of_char c :: nat)" "(of_char c :: nat) \<le> 57"
    using c by (simp_all add: isdigit_def)
  have "v * 10 + int_of_get (Some c) - 48 = word_of_nat (unat v * 10 + (of_char c - 48))"
    using k by (simp add: int_of_get_def of_nat_diff)
  moreover have "unat v * 10 + (of_char c - 48) < 2 ^ 64"
    using v k by simp
  ultimately show ?thesis
    by (simp only: digit_val_def unat_of_nat) simp
qed

lemma digit_val_less: "isdigit (Some c) \<Longrightarrow> digit_val c < 10"
  by (auto simp: isdigit_def digit_val_def)

lemma read_digits_not_good:
  "no_exceptions s \<Longrightarrow> \<not> good s
   \<Longrightarrow> read_digits s v l d = Inr (s\<lparr>failbit := True\<rparr>, v, l, d)"
  by (subst read_digits.simps) (simp add: peek_quiet isdigit_def)

lemma read_digits_spec:
  assumes "drop (gpos s) (buf s) = rest" and "good s" and "no_exceptions s"
    and "\<forall>c\<in>set rest. isdigit (Some c)"
    and "unat logLen < 9" and "unat v < 10 ^ unat logLen"
    and "\<forall>x\<in>set decimal. unat x < 10 ^ 9"
  shows "\<exists>s' v' logLen' decimal'.
      read_digits s v logLen decimal = Inr (s', v', logLen', decimal')
    \<and> unat logLen' < 9 \<and> unat v' < 10 ^ unat logLen'
    \<and> (\<forall>x\<in>set decimal'. unat x < 10 ^ 9)
    \<and> le_value (10 ^ 9) (rev decimal') * 10 ^ unat logLen' + unat v'
        = (le_value (10 ^ 9) (rev decimal) * 10 ^ unat logLen + unat v) * 10 ^ length rest
          + digits_value rest
    \<and> 9 * length decimal' + unat logLen' = 9 * length decimal + unat logLen + length rest"
  using assms
proof (induction rest arbitrary: s v logLen decimal)
  case Nil
  then have "length (buf s) \<le> gpos s"
    by simp
  then have "read_digits s v logLen decimal = Inr (s\<lparr>eofbit := True\<rparr>, v, logLen, decimal)"
    using Nil.prems(2,3) by (subst read_digits.simps) (simp add: peek_end isdigit_def)
  then show ?case
    using Nil.prems by simp
next
  case (Cons c cs)
  note pos = Cons.prems(1) and gd = Cons.prems(2) and quiet = Cons.prems(3)
    and dig = Cons.prems(4) and ll = Cons.prems(5) and vl = Cons.prems(6)
    and bd = Cons.prems(7)
  note p = drop_Cons_pos [OF pos]
  have dc: "isdigit (Some c)"
    using dig by simp
  define v' where "v' = v * 10 + int_of_get (Some c) - 48"
  define s2 where "s2 = s\<lparr>gpos := gpos s + 1\<rparr>"
  have s2: "drop (gpos s2) (buf s2) = cs" "good s2" "no_exceptions s2"
    using p(3) gd quiet by (simp_all add: s2_def good_def no_exceptions_def)
  have "(10::nat) ^ unat logLen \<le> 10 ^ 8"
    using ll by (intro power_increasing) simp_all
  then have v8: "unat v < 10 ^ 8"
    using vl by simp
  have uv': "unat v' = unat v * 10 + digit_val c"
    unfolding v'_def by (rule digit_step [OF v8 dc])
  have step: "read_digits s v logLen decimal
      = (if logLen + 1 = 9 then read_digits s2 0 0 (decimal @ [ucast v'])
         else read_digits s2 v' (logLen + 1) decimal)"
    using gd p(1,2) dc
    by (subst read_digits.simps) (simp add: peek_good get_good Let_def v'_def s2_def)
  have dcs: "\<forall>c\<in>set cs. isdigit (Some c)"
    using dig by simp
  have ul: "unat (logLen + 1) = unat logLen + 1"
    using ll by (simp add: unat_word_ariths)
  have l9: "logLen + 1 = 9 \<longleftrightarrow> unat logLen = 8"
    by (simp add: word_unat_eq_iff [of "logLen + 1"] ul)
  show ?case
  proof (cases "unat logLen = 8")
    case True
    then have l9: "logLen + 1 = 9"
      using l9 by simp
    have v9: "unat v' < 10 ^ 9"
      using uv' vl digit_val_less [OF dc] True by simp
    then have x: "unat (ucast v' :: u32) = unat v'"
      by (simp add: unsigned_ucast_eq take_bit_nat_eq_self)
    have d': "\<forall>x\<in>set (decimal @ [ucast v' :: u32]). unat x < 10 ^ 9"
      using bd v9 x by simp
    from Cons.IH [OF s2 dcs _ _ d', of 0 0]
    obtain s' w l' dec' where r: "read_digits s2 0 0 (decimal @ [ucast v']) = Inr (s', w, l', dec')"
      "unat l' < 9" "unat w < 10 ^ unat l'" "\<forall>x\<in>set dec'. unat x < 10 ^ 9"
      "le_value (10 ^ 9) (rev dec') * 10 ^ unat l' + unat w
        = (le_value (10 ^ 9) (rev (decimal @ [ucast v' :: u32])) * 10 ^ unat (0 :: u64) + unat (0 :: u64))
            * 10 ^ length cs + digits_value cs"
      "9 * length dec' + unat l' = 9 * length (decimal @ [ucast v' :: u32]) + unat (0 :: u64) + length cs"
      by auto
    have e: "le_value (10 ^ 9) (rev dec') * 10 ^ unat l' + unat w
        = (le_value (10 ^ 9) (rev decimal) * 10 ^ unat logLen + unat v) * 10 ^ length (c # cs)
          + digits_value (c # cs)"
      unfolding r(5) by (simp add: x uv' True algebra_simps)
    show ?thesis
      unfolding step using l9 r(1-4) e r(6) True by simp
  next
    case False
    then have l8: "unat logLen < 8"
      using ll by simp
    have n9: "logLen + 1 \<noteq> 9"
      using l9 l8 by simp
    have a: "unat (logLen + 1) < 9"
      using ul l8 by simp
    have b: "unat v' < 10 ^ unat (logLen + 1)"
      using uv' vl digit_val_less [OF dc] unfolding ul by simp
    from Cons.IH [OF s2 dcs a b bd]
    obtain s' w l' dec' where r: "read_digits s2 v' (logLen + 1) decimal = Inr (s', w, l', dec')"
      "unat l' < 9" "unat w < 10 ^ unat l'" "\<forall>x\<in>set dec'. unat x < 10 ^ 9"
      "le_value (10 ^ 9) (rev dec') * 10 ^ unat l' + unat w
        = (le_value (10 ^ 9) (rev decimal) * 10 ^ unat (logLen + 1) + unat v')
            * 10 ^ length cs + digits_value cs"
      "9 * length dec' + unat l' = 9 * length decimal + unat (logLen + 1) + length cs"
      by auto
    have e: "le_value (10 ^ 9) (rev dec') * 10 ^ unat l' + unat w
        = (le_value (10 ^ 9) (rev decimal) * 10 ^ unat logLen + unat v) * 10 ^ length (c # cs)
          + digits_value (c # cs)"
      unfolding r(5) ul by (simp add: uv' algebra_simps)
    show ?thesis
      unfolding step using n9 r(1-4) e r(6) ul by simp
  qed
qed

subsection \<open>Alignment of the groups and conversion to limbs\<close>

lemma unat_pow10: "i \<le> 9 \<Longrightarrow> unat (pow10 i) = 10 ^ i"
proof -
  assume "i \<le> 9"
  then have "i \<in> {0, 1, 2, 3, 4, 5, 6, 7, 8, 9}"
    by auto
  then show ?thesis
    by (auto simp: pow10_def)
qed

lemma unat_add_u64:
  "unat a + unat b < 2 ^ 64 \<Longrightarrow> unat (a + b) = unat a + unat b" for a b :: u64
  by (simp add: unat_add_lem [symmetric])

lemma unat_mult_u64:
  "unat a * unat b < 2 ^ 64 \<Longrightarrow> unat (a * b) = unat a * unat b" for a b :: u64
  by (simp add: unat_mult_lem [symmetric])

lemma pow10_split: "l \<le> 9 \<Longrightarrow> (10::nat) ^ (9 - l) * 10 ^ l = 10 ^ 9"
  by (simp only: power_add [symmetric]) simp

lemma align_rev_spec:
  assumes l: "l \<le> 9" and sh: "unat shift = 10 ^ (9 - l)" and ln: "unat len = 10 ^ l"
    and p: "unat p < 10 ^ l" and rest: "\<forall>x\<in>set rest. unat x < 10 ^ 9"
  shows "le_value (10 ^ 9) (align_rev shift len (p # rest))
           = unat p + 10 ^ l * le_value (10 ^ 9) rest
       \<and> length (align_rev shift len (p # rest)) = Suc (length rest)
       \<and> (\<forall>x\<in>set (align_rev shift len (p # rest)). unat x < 10 ^ 9)"
  using p rest
proof (induction rest arbitrary: p)
  case Nil
  have "(10::nat) ^ l \<le> 10 ^ 9"
    using l by (intro power_increasing) simp_all
  then show ?case
    using Nil by simp
next
  case (Cons n rest)
  define S :: nat where "S = 10 ^ (9 - l)"
  define L :: nat where "L = 10 ^ l"
  have SL: "S * L = 10 ^ 9"
    unfolding S_def L_def by (rule pow10_split [OF l])
  have S0: "0 < S" and L0: "0 < L"
    by (simp_all add: S_def L_def)
  have n: "unat n < 10 ^ 9"
    using Cons.prems(2) by simp
  have pL: "unat p < L"
    using Cons.prems(1) by (simp add: L_def)
  have m: "unat (ucast n mod shift :: u64) = unat n mod S"
    by (simp add: unat_mod unat_ucast_32_64 sh S_def)
  have "unat n mod S < S"
    using S0 by simp
  then have "unat n mod S + 1 \<le> S"
    by simp
  then have "(unat n mod S + 1) * L \<le> S * L"
    by (rule mult_le_mono1)
  then have hi: "unat p + unat n mod S * L < 10 ^ 9"
    using pL unfolding SL by (simp add: algebra_simps)
  then have "unat n mod S * L < 2 ^ 64"
    by simp
  then have ml: "unat (ucast n mod shift * len :: u64) = unat n mod S * L"
    by (subst unat_mult_u64) (simp_all add: m ln L_def)
  have hd: "unat (ucast p + ucast n mod shift * len :: u64) = unat p + unat n mod S * L"
    using hi by (subst unat_add_u64) (simp_all add: ml unat_ucast_32_64)
  have hd32: "unat (ucast (ucast p + ucast n mod shift * len :: u64) :: u32)
      = unat p + unat n mod S * L"
    using hi by (subst unat_ucast_64_32) (simp_all add: hd)
  have dv: "unat (ucast n div shift :: u64) = unat n div S"
    by (simp add: unat_div unat_ucast_32_64 sh S_def)
  have "unat n < L * S"
    using n SL by (simp add: mult.commute)
  then have q: "unat n div S < L"
    using S0 by (simp add: less_mult_imp_div_less)
  have "L \<le> 10 ^ 9"
    unfolding L_def using l by (intro power_increasing) simp_all
  then have dv32: "unat (ucast (ucast n div shift :: u64) :: u32) = unat n div S"
    using q by (subst unat_ucast_64_32) (simp_all add: dv)
  have p': "unat (ucast (ucast n div shift :: u64) :: u32) < 10 ^ l"
    using q by (simp add: dv32 L_def)
  have r': "\<forall>x\<in>set rest. unat x < 10 ^ 9"
    using Cons.prems(2) by simp
  note IH = Cons.IH [OF p' r']
  have "unat p + unat n mod S * L + 10 ^ 9 * (unat n div S + L * le_value (10 ^ 9) rest)
      = unat p + L * (unat n + 10 ^ 9 * le_value (10 ^ 9) rest)"
  proof -
    have "unat n = unat n div S * S + unat n mod S"
      by simp
    then have "L * unat n = unat n div S * (S * L) + unat n mod S * L"
      by (metis distrib_left mult.commute mult.left_commute)
    then show ?thesis
      unfolding SL by (simp add: algebra_simps)
  qed
  then show ?case
    using IH hi by (simp add: hd32 dv32 L_def [symmetric])
qed

lemma conv_div_spec:
  assumes "unat v < 2 ^ 32" and "\<forall>x\<in>set xs. unat x < 10 ^ 9"
  shows "length (fst (conv_div xs v)) = length xs
       \<and> (\<forall>y\<in>set (fst (conv_div xs v)). unat y < 10 ^ 9)
       \<and> unat (snd (conv_div xs v)) < 2 ^ 32
       \<and> unat v * (10 ^ 9) ^ length xs + le_value (10 ^ 9) (rev xs)
           = le_value (10 ^ 9) (rev (fst (conv_div xs v))) * 2 ^ 32 + unat (snd (conv_div xs v))"
  using assms
proof (induction xs arbitrary: v)
  case Nil
  then show ?case by simp
next
  case (Cons x xs)
  define v1 where "v1 = v * pow10 9 + ucast x"
  have x: "unat x < 10 ^ 9"
    using Cons.prems(2) by simp
  have "unat v + 1 \<le> 2 ^ 32"
    using Cons.prems(1) by simp
  then have "(unat v + 1) * 10 ^ 9 \<le> 2 ^ 32 * 10 ^ 9"
    by (rule mult_le_mono1)
  then have b: "unat v * 10 ^ 9 + unat x < 2 ^ 32 * 10 ^ 9"
    using x by (simp add: algebra_simps)
  have "unat (v * pow10 9) = unat v * 10 ^ 9"
    using b by (subst unat_mult_u64) (simp_all add: unat_pow10)
  then have v1: "unat v1 = unat v * 10 ^ 9 + unat x"
    unfolding v1_def using b by (subst unat_add_u64) (simp_all add: unat_ucast_32_64)
  have ub: "unat BigInteger_base = 2 ^ 32"
    by (simp add: BigInteger_base_def)
  have q: "unat (v1 div BigInteger_base) = unat v1 div 2 ^ 32"
    by (simp add: unat_div ub)
  have "unat v1 < 10 ^ 9 * 2 ^ 32"
    using b v1 by (simp add: mult.commute)
  then have q9: "unat v1 div 2 ^ 32 < 10 ^ 9"
    by (simp add: less_mult_imp_div_less)
  then have q32: "unat (ucast (v1 div BigInteger_base) :: u32) = unat v1 div 2 ^ 32"
    by (subst unat_ucast_64_32) (simp_all add: q)
  have r: "unat (v1 mod BigInteger_base) = unat v1 mod 2 ^ 32"
    by (simp add: unat_mod ub)
  then have r32: "unat (v1 mod BigInteger_base) < 2 ^ 32"
    by simp
  have xs: "\<forall>x\<in>set xs. unat x < 10 ^ 9"
    using Cons.prems(2) by simp
  note IH = Cons.IH [OF r32 xs]
  define ys where "ys = fst (conv_div xs (v1 mod BigInteger_base))"
  define rr where "rr = snd (conv_div xs (v1 mod BigInteger_base))"
  have cd: "conv_div (x # xs) v = (ucast (v1 div BigInteger_base) # ys, rr)"
    by (simp add: v1_def ys_def rr_def Let_def case_prod_beta)
  have len: "length ys = length xs" and bys: "\<forall>y\<in>set ys. unat y < 10 ^ 9"
    and brr: "unat rr < 2 ^ 32"
    and eq: "unat v1 mod 2 ^ 32 * (10 ^ 9) ^ length xs + le_value (10 ^ 9) (rev xs)
           = le_value (10 ^ 9) (rev ys) * 2 ^ 32 + unat rr"
    using IH unfolding ys_def rr_def r by simp_all
  have "unat v * (10 ^ 9) ^ length (x # xs) + le_value (10 ^ 9) (rev (x # xs))
      = unat v1 * (10 ^ 9) ^ length xs + le_value (10 ^ 9) (rev xs)"
    by (simp add: le_value_snoc v1 algebra_simps)
  also have "unat v1 = unat v1 div 2 ^ 32 * 2 ^ 32 + unat v1 mod 2 ^ 32"
    by simp
  also have "(unat v1 div 2 ^ 32 * 2 ^ 32 + unat v1 mod 2 ^ 32) * (10 ^ 9) ^ length xs
        + le_value (10 ^ 9) (rev xs)
      = unat v1 div 2 ^ 32 * 2 ^ 32 * (10 ^ 9) ^ length xs
        + (unat v1 mod 2 ^ 32 * (10 ^ 9) ^ length xs + le_value (10 ^ 9) (rev xs))"
    by (simp only: distrib_right add.assoc)
  also have "\<dots> = le_value (10 ^ 9) (rev (ucast (v1 div BigInteger_base) # ys)) * 2 ^ 32 + unat rr"
    unfolding eq by (simp add: le_value_snoc q32 len algebra_simps)
  finally show ?case
    unfolding cd using len bys brr q9 by (simp add: q32)
qed

lemma conv_outer_spec:
  assumes "xs \<noteq> []" and "\<forall>x\<in>set xs. unat x < 10 ^ 9"
  shows "\<exists>L. conv_outer xs out = out @ L
       \<and> le_value (2 ^ 32) L = le_value (10 ^ 9) (rev xs)
       \<and> length xs \<le> Suc (length L) \<and> length L \<le> length xs"
  using assms
proof (induction xs out rule: conv_outer.induct)
  case (1 out)
  then show ?case by simp
next
  case (2 x out)
  then show ?case by simp
next
  case (3 x y ys out)
  define zs where "zs = fst (conv_div (y # ys) (ucast x))"
  define r where "r = snd (conv_div (y # ys) (ucast x))"
  have zr: "(zs, r) = conv_div (y # ys) (ucast x)"
    by (simp add: zs_def r_def)
  have x: "unat (ucast x :: u64) < 2 ^ 32"
    using unat_u32_less [of x] by (simp add: unat_ucast_32_64)
  have yys: "\<forall>x\<in>set (y # ys). unat x < 10 ^ 9"
    using "3.prems"(2) by simp
  from conv_div_spec [OF x yys]
  have len: "length zs = length (y # ys)" and bz: "\<forall>y\<in>set zs. unat y < 10 ^ 9"
    and br: "unat r < 2 ^ 32"
    and eq: "unat x * (10 ^ 9) ^ length (y # ys) + le_value (10 ^ 9) (rev (y # ys))
           = le_value (10 ^ 9) (rev zs) * 2 ^ 32 + unat r"
    unfolding zs_def r_def by (simp_all add: unat_ucast_32_64)
  have nz: "zs \<noteq> []"
    using len by auto
  from "3.IH" [OF zr nz bz]
  obtain L where L: "conv_outer zs (out @ [ucast r]) = (out @ [ucast r]) @ L"
      "le_value (2 ^ 32) L = le_value (10 ^ 9) (rev zs)"
      "length zs \<le> Suc (length L)" "length L \<le> length zs"
    by blast
  have co: "conv_outer (x # y # ys) out = out @ (ucast r # L)"
    using L(1) zr by (simp add: case_prod_beta zs_def r_def)
  have a: "le_value (10 ^ 9) (rev (x # y # ys))
      = unat x * (10 ^ 9) ^ length (y # ys) + le_value (10 ^ 9) (rev (y # ys))"
    using le_value_snoc [of "10 ^ 9" "rev (y # ys)" x] by simp
  have b: "le_value (2 ^ 32) (ucast r # L) = unat r + 2 ^ 32 * le_value (10 ^ 9) (rev zs)"
    unfolding le_value.simps L(2) using br by (simp add: unat_ucast_64_32)
  have "le_value (2 ^ 32) (ucast r # L) = le_value (10 ^ 9) (rev (x # y # ys))"
    unfolding a b eq by simp
  then show ?case
    using co L(3,4) len by (intro exI [of _ "ucast r # L"]) simp
qed

subsection \<open>Conversion of the limbs to groups of nine digits\<close>

lemma shift_or_plus:
  fixes v :: u64 and x :: u32
  shows "v * BigInteger_base OR ucast x = v * BigInteger_base + ucast x"
proof -
  have e: "v * BigInteger_base = push_bit 32 v"
    by (simp add: BigInteger_base_def push_bit_eq_mult)
  have "\<not> bit (push_bit 32 v) n \<or> \<not> bit (ucast x :: u64) n" for n
    by (auto simp: bit_push_bit_iff bit_ucast_iff dest: bit_imp_le_length)
  then show ?thesis
    unfolding e by (rule disjunctive_add [symmetric])
qed

lemma pd_div_spec:
  assumes "unat v < 10 ^ 9"
  shows "length (fst (pd_div xs v)) = length xs
       \<and> unat (snd (pd_div xs v)) < 10 ^ 9
       \<and> unat v * (2 ^ 32) ^ length xs + le_value (2 ^ 32) (rev xs)
           = le_value (2 ^ 32) (rev (fst (pd_div xs v))) * 10 ^ 9 + unat (snd (pd_div xs v))"
  using assms
proof (induction xs arbitrary: v)
  case Nil
  then show ?case by simp
next
  case (Cons x xs)
  define v1 where "v1 = v * BigInteger_base OR ucast x"
  have v1p: "v1 = v * BigInteger_base + ucast x"
    unfolding v1_def by (rule shift_or_plus)
  have ub: "unat BigInteger_base = 2 ^ 32"
    by (simp add: BigInteger_base_def)
  have x: "unat x < 2 ^ 32"
    by (rule unat_u32_less)
  have "unat v + 1 \<le> 10 ^ 9"
    using Cons.prems(1) by simp
  then have "(unat v + 1) * 2 ^ 32 \<le> 10 ^ 9 * 2 ^ 32"
    by (rule mult_le_mono1)
  then have b: "unat v * 2 ^ 32 + unat x < 10 ^ 9 * 2 ^ 32"
    using x by (simp add: algebra_simps)
  have "unat (v * BigInteger_base) = unat v * 2 ^ 32"
    using b by (subst unat_mult_u64) (simp_all add: ub)
  then have v1: "unat v1 = unat v * 2 ^ 32 + unat x"
    unfolding v1p using b by (subst unat_add_u64) (simp_all add: unat_ucast_32_64)
  have q: "unat (v1 div pow10 9) = unat v1 div 10 ^ 9"
    by (simp add: unat_div unat_pow10)
  have "unat v1 < 2 ^ 32 * 10 ^ 9"
    using b v1 by (simp add: mult.commute)
  then have q9: "unat v1 div 10 ^ 9 < 2 ^ 32"
    by (simp add: less_mult_imp_div_less)
  then have q32: "unat (ucast (v1 div pow10 9) :: u32) = unat v1 div 10 ^ 9"
    by (subst unat_ucast_64_32) (simp_all add: q)
  have r: "unat (v1 mod pow10 9) = unat v1 mod 10 ^ 9"
    by (simp add: unat_mod unat_pow10)
  then have r9: "unat (v1 mod pow10 9) < 10 ^ 9"
    by simp
  note IH = Cons.IH [OF r9]
  define ys where "ys = fst (pd_div xs (v1 mod pow10 9))"
  define rr where "rr = snd (pd_div xs (v1 mod pow10 9))"
  have cd: "pd_div (x # xs) v = (ucast (v1 div pow10 9) # ys, rr)"
    by (simp add: v1_def ys_def rr_def Let_def case_prod_beta)
  have len: "length ys = length xs" and brr: "unat rr < 10 ^ 9"
    and eq: "unat v1 mod 10 ^ 9 * (2 ^ 32) ^ length xs + le_value (2 ^ 32) (rev xs)
           = le_value (2 ^ 32) (rev ys) * 10 ^ 9 + unat rr"
    using IH unfolding ys_def rr_def r by simp_all
  have "unat v * (2 ^ 32) ^ length (x # xs) + le_value (2 ^ 32) (rev (x # xs))
      = unat v1 * (2 ^ 32) ^ length xs + le_value (2 ^ 32) (rev xs)"
    by (simp add: le_value_snoc v1 algebra_simps)
  also have "unat v1 = unat v1 div 10 ^ 9 * 10 ^ 9 + unat v1 mod 10 ^ 9"
    by simp
  also have "(unat v1 div 10 ^ 9 * 10 ^ 9 + unat v1 mod 10 ^ 9) * (2 ^ 32) ^ length xs
        + le_value (2 ^ 32) (rev xs)
      = unat v1 div 10 ^ 9 * 10 ^ 9 * (2 ^ 32) ^ length xs
        + (unat v1 mod 10 ^ 9 * (2 ^ 32) ^ length xs + le_value (2 ^ 32) (rev xs))"
    by (simp only: distrib_right add.assoc)
  also have "\<dots> = le_value (2 ^ 32) (rev (ucast (v1 div pow10 9) # ys)) * 10 ^ 9 + unat rr"
    unfolding eq by (simp add: le_value_snoc q32 len algebra_simps)
  finally show ?case
    unfolding cd using len brr by simp
qed

lemma le_value_less: "le_value (2 ^ 32) (xs :: u32 list) < (2 ^ 32) ^ length xs"
proof (induction xs)
  case Nil
  show ?case by simp
next
  case (Cons x xs)
  have "le_value (2 ^ 32) xs + 1 \<le> (2 ^ 32) ^ length xs"
    using Cons by simp
  then have "2 ^ 32 * (le_value (2 ^ 32) xs + 1) \<le> 2 ^ 32 * (2 ^ 32) ^ length xs"
    by (rule mult_le_mono2)
  then show ?case
    using unat_u32_less [of x] by (simp add: algebra_simps)
qed

lemma pow_10_9_le: "((10::nat) ^ 9) ^ k \<le> (2 ^ 32) ^ k"
  by (rule power_mono) simp_all

lemma pd_outer_spec:
  assumes "xs \<noteq> []" and "(10 ^ 9) ^ (length xs - 1) \<le> le_value (2 ^ 32) (rev xs)"
  shows "\<exists>h rs. pd_outer xs dec = (h, dec @ rs) \<and> h \<noteq> 0
       \<and> (\<forall>r\<in>set rs. unat r < 10 ^ 9)
       \<and> le_value (2 ^ 32) (rev xs) = unat h * (10 ^ 9) ^ length rs + le_value (10 ^ 9) rs"
  using assms
proof (induction xs dec rule: pd_outer.induct)
  case (1 decimal)
  then show ?case by simp
next
  case (2 x decimal)
  then have "x \<noteq> 0"
    by auto
  then show ?case
    by simp
next
  case (3 x y ys decimal)
  define zs where "zs = fst (pd_div (x # y # ys) 0)"
  define r where "r = snd (pd_div (x # y # ys) 0)"
  define N where "N = le_value (2 ^ 32) (rev (x # y # ys))"
  have zr: "(zs, r) = pd_div (x # y # ys) 0"
    by (simp add: zs_def r_def)
  from pd_div_spec [of 0 "x # y # ys"]
  have len: "length zs = Suc (Suc (length ys))" and br: "unat r < 10 ^ 9"
    and eq: "N = le_value (2 ^ 32) (rev zs) * 10 ^ 9 + unat r"
    unfolding zs_def r_def N_def by simp_all
  obtain z zs' where z: "zs = z # zs'" and len': "length zs' = Suc (length ys)"
    using len by (cases zs) auto
  define xs' where "xs' = (if hd zs = 0 then tl zs else zs)"
  have v: "le_value (2 ^ 32) (rev xs') = le_value (2 ^ 32) (rev zs)"
    by (simp add: xs'_def z le_value_snoc)
  have nz: "xs' \<noteq> []"
    using len' by (auto simp: xs'_def z)
  have lo: "(10 ^ 9) ^ Suc (length ys) \<le> N"
    using "3.prems"(2) by (simp add: N_def)
  have inv: "(10 ^ 9) ^ (length xs' - 1) \<le> le_value (2 ^ 32) (rev xs')"
  proof (cases "z = 0")
    case True
    have "(10 ^ 9) ^ length ys * 10 ^ 9 \<le> le_value (2 ^ 32) (rev zs) * 10 ^ 9 + unat r"
      using lo unfolding eq by (simp add: mult.commute)
    then have "(10 ^ 9) ^ length ys * 10 ^ 9 < (le_value (2 ^ 32) (rev zs) + 1) * 10 ^ 9"
      using br by simp
    then have "(10 ^ 9) ^ length ys < le_value (2 ^ 32) (rev zs) + 1"
      by (simp only: mult_less_cancel2)
    then show ?thesis
      using True len' by (simp add: xs'_def z v [unfolded xs'_def z, simplified] le_value_snoc)
  next
    case False
    then have "1 \<le> unat z"
      by (simp add: unat_gt_0 Suc_leI)
    then have "(2 ^ 32) ^ length zs' * 1 \<le> (2 ^ 32) ^ length zs' * unat z"
      by (rule mult_le_mono2)
    then have "(2 ^ 32) ^ length zs' \<le> le_value (2 ^ 32) (rev zs)"
      by (simp add: z le_value_snoc trans_le_add2)
    then have "(10 ^ 9) ^ length zs' \<le> le_value (2 ^ 32) (rev zs)"
      using pow_10_9_le [of "length zs'"] by (rule order_trans [rotated])
    then show ?thesis
      using False len' by (simp add: xs'_def z)
  qed
  from "3.IH" [OF zr nz [unfolded xs'_def] inv [unfolded xs'_def]]
  obtain h rs where h: "pd_outer xs' (decimal @ [ucast r]) = (h, (decimal @ [ucast r]) @ rs)"
      "h \<noteq> 0" "\<forall>r\<in>set rs. unat r < 10 ^ 9"
      "le_value (2 ^ 32) (rev xs') = unat h * (10 ^ 9) ^ length rs + le_value (10 ^ 9) rs"
    unfolding xs'_def by blast
  have r32: "unat (ucast r :: u32) = unat r"
    using br by (subst unat_ucast_64_32) simp_all
  have "pd_outer (x # y # ys) decimal
      = (case pd_div (x # y # ys) 0 of
           (zs, r) \<Rightarrow> pd_outer (if hd zs = 0 then tl zs else zs) (decimal @ [ucast r]))"
    by (rule pd_outer.simps(3))
  also have "\<dots> = pd_outer xs' (decimal @ [ucast r])"
    unfolding zr [symmetric] xs'_def by (simp only: prod.case)
  finally have po: "pd_outer (x # y # ys) decimal = (h, decimal @ (ucast r # rs))"
    using h(1) by simp
  have "N = unat h * (10 ^ 9) ^ length (ucast r # rs :: u32 list)
      + le_value (10 ^ 9) (ucast r # rs :: u32 list)"
    unfolding eq v [symmetric] h(4) by (simp add: r32 algebra_simps)
  then show ?case
    unfolding N_def using po h(2,3) br r32
    by (intro exI [of _ h] exI [of _ "ucast r # rs"]) simp
qed

subsection \<open>The digits written\<close>

lemma dec_string_small: "n < 10 \<Longrightarrow> dec_string n = [digit_char n]"
  by (subst dec_string.simps) simp

lemma dec_string_big:
  "10 \<le> n \<Longrightarrow> dec_string n = dec_string (n div 10) @ [digit_char (n mod 10)]"
  by (subst dec_string.simps) simp

lemma dec_string_shift:
  assumes "0 < n" and "r < 10 ^ k"
  shows "dec_string (n * 10 ^ k + r) = dec_string n @ fixed_digits k r"
  using assms(2)
proof (induction k arbitrary: r)
  case 0
  then show ?case by simp
next
  case (Suc k)
  define m where "m = n * 10 ^ Suc k + r"
  define q where "q = n * 10 ^ k"
  have m: "m = 10 * q + r"
    by (simp add: m_def q_def)
  have "0 < q"
    using assms(1) by (simp add: q_def)
  then have big: "10 \<le> m"
    unfolding m by simp
  have d: "m div 10 = n * 10 ^ k + r div 10"
    unfolding m by (simp add: q_def)
  have md: "m mod 10 = r mod 10"
    unfolding m by simp
  have r: "r div 10 < 10 ^ k"
    using Suc.prems by simp
  show ?case
    unfolding m_def [symmetric] dec_string_big [OF big] d md Suc.IH [OF r] by simp
qed

lemma digit_char_0: "digit_char 0 = CHR ''0''"
  by code_simp

lemma fixed_digits_zero:
  "r < 10 ^ k \<Longrightarrow> fixed_digits (Suc k) r = CHR ''0'' # fixed_digits k r"
proof (induction k arbitrary: r)
  case 0
  then show ?case by (simp add: digit_char_0)
next
  case (Suc k)
  have r: "r div 10 < 10 ^ k"
    using Suc.prems by simp
  have "fixed_digits (Suc (Suc k)) r = fixed_digits (Suc k) (r div 10) @ [digit_char (r mod 10)]"
    by (rule fixed_digits.simps(2))
  also have "\<dots> = (CHR ''0'' # fixed_digits k (r div 10)) @ [digit_char (r mod 10)]"
    by (simp only: Suc.IH [OF r])
  also have "\<dots> = CHR ''0'' # fixed_digits (Suc k) r"
    by simp
  finally show ?case .
qed

lemma dec_string_fixed:
  "10 ^ k \<le> r \<Longrightarrow> r < 10 ^ Suc k \<Longrightarrow> dec_string r = fixed_digits (Suc k) r"
proof (induction k arbitrary: r)
  case 0
  then show ?case
    by (simp add: dec_string_small)
next
  case (Suc k)
  have big: "10 \<le> r"
  proof -
    define X :: nat where "X = 10 ^ k"
    have "0 < X"
      by (simp add: X_def)
    moreover have "10 * X \<le> r"
      using Suc.prems(1) by (simp add: X_def)
    ultimately show ?thesis
      by linarith
  qed
  have a: "10 ^ k \<le> r div 10"
    using Suc.prems(1) by (simp add: less_eq_div_iff_mult_less_eq mult.commute)
  have b: "r div 10 < 10 ^ Suc k"
    using Suc.prems(2) by simp
  show ?case
    unfolding dec_string_big [OF big] Suc.IH [OF a b] by simp
qed

lemma pad_zeros_fixed:
  "j \<le> 8 \<Longrightarrow> unat x < 10 ^ Suc j
   \<Longrightarrow> pad_zeros x j @ put_u32 x = fixed_digits (Suc j) (unat x)"
proof (induction j)
  case 0
  then show ?case
    by (simp add: put_u32_def dec_string_small)
next
  case (Suc j)
  have lt: "(ucast x < pow10 (Suc j)) = (unat x < 10 ^ Suc j)"
    using Suc.prems(1) by (simp add: word_less_nat_alt unat_ucast_32_64 unat_pow10)
  show ?case
  proof (cases "unat x < 10 ^ Suc j")
    case True
    have "pad_zeros x (Suc j) @ put_u32 x = CHR ''0'' # (pad_zeros x j @ put_u32 x)"
      using True lt by simp
    also have "pad_zeros x j @ put_u32 x = fixed_digits (Suc j) (unat x)"
      using Suc.prems(1) True by (intro Suc.IH) simp_all
    also have "CHR ''0'' # fixed_digits (Suc j) (unat x) = fixed_digits (Suc (Suc j)) (unat x)"
      by (rule fixed_digits_zero [OF True, symmetric])
    finally show ?thesis .
  next
    case False
    then have "pad_zeros x (Suc j) @ put_u32 x = dec_string (unat x)"
      using lt by (simp add: put_u32_def)
    also have "\<dots> = fixed_digits (Suc (Suc j)) (unat x)"
      using False Suc.prems(2) by (intro dec_string_fixed) simp_all
    finally show ?thesis .
  qed
qed

lemma print_groups:
  assumes "0 < n" and "\<forall>r\<in>set rs. unat r < 10 ^ 9"
  shows "dec_string n @ concat (map (\<lambda>x. pad_zeros x 8 @ put_u32 x) (rev rs))
       = dec_string (n * (10 ^ 9) ^ length rs + le_value (10 ^ 9) rs)"
  using assms(2)
proof (induction rs)
  case Nil
  show ?case by simp
next
  case (Cons r rs)
  define m where "m = n * (10 ^ 9) ^ length rs + le_value (10 ^ 9) rs"
  have "1 * (10 ^ 9) ^ length rs \<le> n * (10 ^ 9) ^ length rs"
    using assms(1) by (intro mult_le_mono1) simp
  then have m0: "0 < m"
    unfolding m_def by (simp add: Suc_leI add_pos_nonneg less_le_trans [rotated])
  have r: "unat r < 10 ^ 9" and rs: "\<forall>r\<in>set rs. unat r < 10 ^ 9"
    using Cons.prems by simp_all
  have f: "pad_zeros r 8 @ put_u32 r = fixed_digits 9 (unat r)"
    using pad_zeros_fixed [of 8 r] r by simp
  have "dec_string n @ concat (map (\<lambda>x. pad_zeros x 8 @ put_u32 x) (rev (r # rs)))
      = (dec_string n @ concat (map (\<lambda>x. pad_zeros x 8 @ put_u32 x) (rev rs)))
        @ (pad_zeros r 8 @ put_u32 r)"
    by simp
  also have "\<dots> = dec_string m @ fixed_digits 9 (unat r)"
    unfolding Cons.IH [OF rs] m_def f ..
  also have "\<dots> = dec_string (m * 10 ^ 9 + unat r)"
    by (rule dec_string_shift [OF m0 r, symmetric])
  also have "m * 10 ^ 9 + unat r = n * (10 ^ 9) ^ length (r # rs) + le_value (10 ^ 9) (r # rs)"
    by (simp add: m_def algebra_simps)
  finally show ?case .
qed

lemma digit_char_val: "isdigit (Some c) \<Longrightarrow> digit_char (digit_val c) = c"
  by (simp add: isdigit_def digit_char_def digit_val_def)

lemma digit_val_pos:
  assumes "isdigit (Some c)" and "c \<noteq> CHR ''0''"
  shows "0 < digit_val c"
proof -
  have "of_char c \<noteq> (of_char CHR ''0'' :: nat)"
    using assms(2) by (simp only: of_char_eq_iff) simp
  then show ?thesis
    using assms(1) by (simp add: isdigit_def digit_val_def)
qed

lemma digits_value_less:
  "\<forall>c\<in>set ds. isdigit (Some c) \<Longrightarrow> digits_value ds < 10 ^ length ds"
proof (induction ds)
  case Nil
  show ?case by simp
next
  case (Cons c cs)
  define X :: nat where "X = 10 ^ length cs"
  have "digit_val c + 1 \<le> 10"
    using digit_val_less [of c] Cons.prems by simp
  then have "(digit_val c + 1) * X \<le> 10 * X"
    by (rule mult_le_mono1)
  then have "digit_val c * X + X \<le> 10 * X"
    by (simp add: algebra_simps)
  moreover have "digits_value cs < X"
    using Cons by (simp add: X_def)
  ultimately have "digit_val c * X + digits_value cs < 10 * X"
    by linarith
  then show ?case
    by (simp add: X_def)
qed

lemma digits_value_lower:
  assumes "isdigit (Some c)" and "c \<noteq> CHR ''0''"
  shows "10 ^ length cs \<le> digits_value (c # cs)"
proof -
  have "1 * 10 ^ length cs \<le> digit_val c * 10 ^ length cs"
    using digit_val_pos [OF assms] by (intro mult_le_mono1) simp
  then show ?thesis
    by (simp add: trans_le_add1)
qed

lemma dec_string_digits:
  assumes "ds \<noteq> []" and "\<forall>c\<in>set ds. isdigit (Some c)" and "hd ds \<noteq> CHR ''0''"
  shows "dec_string (digits_value ds) = ds"
  using assms
proof (induction ds rule: rev_induct)
  case Nil
  then show ?case by simp
next
  case (snoc c cs)
  have c: "isdigit (Some c)"
    using snoc.prems(2) by simp
  show ?case
  proof (cases cs)
    case Nil
    have "digits_value [c] = digit_val c"
      by simp
    then show ?thesis
      using Nil digit_val_less [OF c] by (simp add: dec_string_small digit_char_val [OF c])
  next
    case (Cons a as)
    have a: "isdigit (Some a)" "a \<noteq> CHR ''0''"
      using snoc.prems(2,3) Cons by simp_all
    have "10 ^ length as \<le> digits_value cs"
      unfolding Cons by (rule digits_value_lower [OF a])
    then have pos: "1 \<le> digits_value cs"
      by (metis One_nat_def Suc_leI le_trans zero_less_numeral zero_less_power)
    have IH: "dec_string (digits_value cs) = cs"
      using snoc.prems(2,3) Cons by (intro snoc.IH) simp_all
    have v: "digits_value (cs @ [c]) = 10 * digits_value cs + digit_val c"
      by (simp add: digits_value_snoc)
    have big: "10 \<le> digits_value (cs @ [c])"
      unfolding v using pos by simp
    have d: "digits_value (cs @ [c]) div 10 = digits_value cs"
      unfolding v using digit_val_less [OF c] by simp
    have m: "digits_value (cs @ [c]) mod 10 = digit_val c"
      unfolding v using digit_val_less [OF c] by simp
    show ?thesis
      unfolding dec_string_big [OF big] d m IH digit_char_val [OF c] ..
  qed
qed

subsection \<open>Decimal reading and writing\<close>

lemma skip_zeros_spec:
  assumes "good s" and "drop (gpos s) (buf s) = zs @ rest" and "\<forall>c\<in>set zs. c = CHR ''0''"
    and "rest \<noteq> []" and "hd rest \<noteq> CHR ''0''"
  shows "skip_zeros s = Inr (s\<lparr>gpos := gpos s + length zs\<rparr>)"
  using assms(1-3)
proof (induction zs arbitrary: s)
  case Nil
  obtain c cs where r: "rest = c # cs"
    using assms(4) by (cases rest) auto
  have c: "c \<noteq> CHR ''0''"
    using assms(5) r by simp
  note p = drop_Cons_pos [OF Nil.prems(2) [unfolded r append_Nil]]
  show ?case
    using c by (subst skip_zeros.simps) (simp add: peek_good [OF Nil.prems(1) p(1)] p(2))
next
  case (Cons z zs)
  have z: "z = CHR ''0''"
    using Cons.prems(3) by simp
  note p = drop_Cons_pos [OF Cons.prems(2) [unfolded append_Cons]]
  define s2 where "s2 = s\<lparr>gpos := gpos s + 1\<rparr>"
  have s2: "good s2" "drop (gpos s2) (buf s2) = zs @ rest"
    using Cons.prems(1) p(3) by (simp_all add: s2_def good_def)
  have "skip_zeros s = skip_zeros s2"
    by (subst skip_zeros.simps)
      (simp add: peek_good [OF Cons.prems(1) p(1)] get_good [OF Cons.prems(1) p(1)] p(2) z s2_def)
  also have "\<dots> = Inr (s2\<lparr>gpos := gpos s2 + length zs\<rparr>)"
    using Cons.prems(3) by (intro Cons.IH s2) simp
  finally show ?case
    by (simp add: s2_def)
qed

lemma skip_zeros_all:
  assumes "good s" and "no_exceptions s" and "drop (gpos s) (buf s) = zs"
    and "\<forall>c\<in>set zs. c = CHR ''0''"
  shows "\<exists>s'. skip_zeros s = Inr s' \<and> \<not> good s' \<and> no_exceptions s'"
  using assms
proof (induction zs arbitrary: s)
  case Nil
  then have "length (buf s) \<le> gpos s"
    by simp
  then have "skip_zeros s = Inr (s\<lparr>eofbit := True\<rparr>)"
    by (subst skip_zeros.simps) (simp add: peek_end [OF Nil.prems(2,1)])
  then show ?case
    using Nil.prems(2) by (simp add: good_def no_exceptions_def)
next
  case (Cons z zs)
  have z: "z = CHR ''0''"
    using Cons.prems(4) by simp
  note p = drop_Cons_pos [OF Cons.prems(3)]
  define s2 where "s2 = s\<lparr>gpos := gpos s + 1\<rparr>"
  have s2: "good s2" "no_exceptions s2" "drop (gpos s2) (buf s2) = zs"
    using Cons.prems(1,2) p(3) by (simp_all add: s2_def good_def no_exceptions_def)
  have "skip_zeros s = skip_zeros s2"
    by (subst skip_zeros.simps)
      (simp add: peek_good [OF Cons.prems(1) p(1)] get_good [OF Cons.prems(1) p(1)] p(2) z s2_def)
  moreover have "\<exists>s'. skip_zeros s2 = Inr s' \<and> \<not> good s' \<and> no_exceptions s'"
    using Cons.prems(4) by (intro Cons.IH s2) simp
  ultimately show ?case
    by simp
qed

lemma isdigit_zero: "isdigit (Some CHR ''0'')"
  by (simp add: isdigit_def)

lemma getDec_zero:
  assumes "good s" and "no_exceptions s" and "drop (gpos s) (buf s) = ds" and "ds \<noteq> []"
    and "\<forall>c\<in>set ds. c = CHR ''0''"
  shows "\<exists>s'. getDec s self = Inr (s', self\<lparr>limbs := [0], negative := False\<rparr>)"
proof -
  obtain c cs where ds: "ds = c # cs"
    using assms(4) by (cases ds) auto
  note p = drop_Cons_pos [OF assms(3) [unfolded ds]]
  have c: "c = CHR ''0''"
    using assms(5) ds by simp
  have pk: "is_peek s = Inr (Some CHR ''0'', s)"
    using peek_good [OF assms(1) p(1)] p(2) c by simp
  obtain s' where sk: "skip_zeros s = Inr s'" and s': "\<not> good s'" "no_exceptions s'"
    using skip_zeros_all [OF assms(1,2,3,5)] by blast
  have rd: "read_digits s' 0 0 [] = Inr (s'\<lparr>failbit := True\<rparr>, 0, 0, [])"
    using s' by (intro read_digits_not_good)
  show ?thesis
    by (simp add: getDec_def pk isdigit_zero sk rd)
qed

lemma getDec_nonzero:
  assumes "good s" and "drop (gpos s) (buf s) = zs @ ds" and "\<forall>c\<in>set zs. c = CHR ''0''"
    and "ds \<noteq> []" and "hd ds \<noteq> CHR ''0''" and "\<forall>c\<in>set ds. isdigit (Some c)"
    and quiet: "no_exceptions s"
  shows "\<exists>s' L. getDec s self = Inr (s', self\<lparr>limbs := L\<rparr>) \<and> L \<noteq> []
       \<and> le_value (2 ^ 32) L = digits_value ds
       \<and> (10 ^ 9) ^ (length L - 1) \<le> digits_value ds"
proof -
  define N where "N = digits_value ds"
  obtain a as where r: "zs @ ds = a # as"
    using assms(4) by (cases "zs @ ds") auto
  note p = drop_Cons_pos [OF assms(2) [unfolded r]]
  have mem: "a \<in> set (zs @ ds)"
    unfolding r by simp
  have a: "isdigit (Some a)"
  proof (cases "a \<in> set zs")
    case True
    then have "a = CHR ''0''"
      using assms(3) by blast
    then show ?thesis
      by (simp only: isdigit_zero)
  next
    case False
    with mem have "a \<in> set ds"
      by simp
    then show ?thesis
      using assms(6) by blast
  qed
  have pk: "is_peek s = Inr (Some a, s)"
    using peek_good [OF assms(1) p(1)] p(2) by simp
  define s' where "s' = s\<lparr>gpos := gpos s + length zs\<rparr>"
  have sk: "skip_zeros s = Inr s'"
    unfolding s'_def by (rule skip_zeros_spec [OF assms(1,2,3,4,5)])
  have "drop (gpos s + length zs) (buf s) = drop (length zs) (drop (gpos s) (buf s))"
    by (simp add: add.commute)
  then have s': "drop (gpos s') (buf s') = ds" "good s'" "no_exceptions s'"
    using assms(1,2) quiet by (simp_all add: s'_def good_def no_exceptions_def)
  from read_digits_spec [OF s' assms(6), of 0 0 "[]"]
  obtain s2 v l dec where rd: "read_digits s' 0 0 [] = Inr (s2, v, l, dec)"
      and l9: "unat l < 9" and vl: "unat v < 10 ^ unat l"
      and bd: "\<forall>x\<in>set dec. unat x < 10 ^ 9"
      and val: "le_value (10 ^ 9) (rev dec) * 10 ^ unat l + unat v = N"
      and cnt: "9 * length dec + unat l = length ds"
    unfolding N_def by auto
  define decimal1 where "decimal1 =
      (if l \<noteq> 0
       then rev (align_rev (pow10 (9 - unat l)) (pow10 (unat l)) (rev (dec @ [ucast v])))
       else dec)"
  have d1: "le_value (10 ^ 9) (rev decimal1) = N \<and> (\<forall>x\<in>set decimal1. unat x < 10 ^ 9)
      \<and> decimal1 \<noteq> [] \<and> 9 * (length decimal1 - 1) + 1 \<le> length ds"
  proof (cases "l = 0")
    case True
    then have "dec \<noteq> []"
      using cnt assms(4) by auto
    then show ?thesis
      using True val vl bd cnt by (cases dec) (simp_all add: decimal1_def)
  next
    case False
    then have l1: "1 \<le> unat l"
      by (simp add: unat_gt_0 Suc_leI)
    have "(10::nat) ^ unat l \<le> 10 ^ 9"
      using l9 by (intro power_increasing) simp_all
    then have v32: "unat (ucast v :: u32) = unat v"
      using vl by (subst unat_ucast_64_32) simp_all
    have le9: "unat l \<le> 9"
      using l9 by simp
    have al: "le_value (10 ^ 9) (align_rev (pow10 (9 - unat l)) (pow10 (unat l)) (ucast v # rev dec))
           = unat (ucast v :: u32) + 10 ^ unat l * le_value (10 ^ 9) (rev dec)
       \<and> length (align_rev (pow10 (9 - unat l)) (pow10 (unat l)) (ucast v # rev dec))
           = Suc (length (rev dec))
       \<and> (\<forall>x\<in>set (align_rev (pow10 (9 - unat l)) (pow10 (unat l)) (ucast v # rev dec)).
             unat x < 10 ^ 9)"
      using vl bd le9 by (intro align_rev_spec [OF le9]) (simp_all add: unat_pow10 v32)
    define A where "A = align_rev (pow10 (9 - unat l)) (pow10 (unat l)) (ucast v # rev dec)"
    have A: "le_value (10 ^ 9) A = N" "length A = Suc (length dec)"
        "\<forall>x\<in>set A. unat x < 10 ^ 9"
      using al val unfolding A_def [symmetric] by (simp_all add: v32 mult.commute add.commute)
    have ne: "A \<noteq> []"
      using A(2) by auto
    have d: "decimal1 = rev A"
      using False by (simp add: decimal1_def A_def)
    show ?thesis
      unfolding d using A ne cnt l1 by simp
  qed
  obtain c cs where ds: "ds = c # cs"
    using assms(4) by (cases ds) auto
  have "10 ^ length cs \<le> N"
    unfolding N_def ds using assms(5,6) ds by (intro digits_value_lower) simp_all
  moreover have "9 * (length decimal1 - 1) \<le> length cs"
    using d1 ds by simp
  then have "(10::nat) ^ (9 * (length decimal1 - 1)) \<le> 10 ^ length cs"
    by (intro power_increasing) simp_all
  ultimately have low: "(10 ^ 9) ^ (length decimal1 - 1) \<le> N"
    by (simp add: power_mult)
  moreover have "(0::nat) < (10 ^ 9) ^ (length decimal1 - 1)"
    by simp
  ultimately have N0: "0 < N"
    by linarith
  from conv_outer_spec [of decimal1 "[]"] d1
  obtain L where L: "conv_outer decimal1 [] = L" "le_value (2 ^ 32) L = N"
      "length L \<le> length decimal1"
    by auto
  have Lne: "L \<noteq> []"
    using L(2) N0 by auto
  have "((10::nat) ^ 9) ^ (length L - 1) \<le> (10 ^ 9) ^ (length decimal1 - 1)"
    using L(3) by (intro power_increasing) simp_all
  then have low': "(10 ^ 9) ^ (length L - 1) \<le> N"
    using low by (rule order_trans)
  have "getDec s self = Inr (s2, self\<lparr>limbs := L\<rparr>)"
    using d1 by (simp add: getDec_def pk a sk rd Let_def decimal1_def [symmetric] L(1))
  then show ?thesis
    using Lne L(2) low' unfolding N_def by blast
qed

lemma putDec_spec:
  assumes "limbs x \<noteq> []" and "0 < le_value (2 ^ 32) (limbs x)"
    and "(10 ^ 9) ^ (length (limbs x) - 1) \<le> le_value (2 ^ 32) (limbs x)"
  shows "putDec x = Some (dec_string (le_value (2 ^ 32) (limbs x)))"
proof -
  define N where "N = le_value (2 ^ 32) (limbs x)"
  have one: "\<not> (length (limbs x) = 1 \<and> hd (limbs x) = 0)"
  proof
    assume "length (limbs x) = 1 \<and> hd (limbs x) = 0"
    then have "limbs x = [0]"
      by (cases "limbs x") auto
    then show False
      using assms(2) by simp
  qed
  from pd_outer_spec [of "rev (limbs x)" "[]"] assms(1,3)
  obtain h rs where h: "pd_outer (rev (limbs x)) [] = (h, rs)" "h \<noteq> 0"
      "\<forall>r\<in>set rs. unat r < 10 ^ 9"
      "N = unat h * (10 ^ 9) ^ length rs + le_value (10 ^ 9) rs"
    unfolding N_def by auto
  have h0: "0 < unat h"
    using h(2) by (simp add: unat_gt_0)
  have "putDec x = Some (put_u32 h @ concat (map (\<lambda>x. pad_zeros x 8 @ put_u32 x) (rev rs)))"
    using assms(1) one h(2) by (auto simp: putDec_def h(1))
  also have "put_u32 h @ concat (map (\<lambda>x. pad_zeros x 8 @ put_u32 x) (rev rs)) = dec_string N"
    unfolding put_u32_def [of h] h(4) by (rule print_groups [OF h0 h(3)])
  finally show ?thesis
    unfolding N_def .
qed

subsection \<open>The round trip\<close>

lemma digit_not_sign:
  assumes "isdigit (Some c)"
  shows "c \<noteq> CHR ''-''" and "c \<noteq> CHR ''+''" and "\<not> isspace c"
  using assms by (auto simp: isdigit_def isspace_def)

lemma extract_unsigned:
  assumes "good st" and "no_exceptions st" and "drop (gpos st) (buf st) = ds"
    and "ds \<noteq> []" and "\<forall>c\<in>set ds. isdigit (Some c)"
  shows "\<exists>s3. extract_op junk Dec st self = getDec s3 (self\<lparr>negative := False\<rparr>)
       \<and> good s3 \<and> no_exceptions s3 \<and> drop (gpos s3) (buf s3) = ds"
proof -
  obtain c cs where ds: "ds = c # cs"
    using assms(4) by (cases ds) auto
  have c: "isdigit (Some c)"
    using assms(5) ds by simp
  note ns = digit_not_sign [OF c]
  note p = drop_Cons_pos [OF assms(3) [unfolded ds]]
  define s1 where "s1 = st\<lparr>gpos := gpos st + 1\<rparr>"
  define s3 where "s3 = st\<lparr>gpos := gpos st, eofbit := False\<rparr>"
  have tw: "takeWhile isspace (drop (gpos st) (buf st)) = []"
    unfolding assms(3) ds using ns(3) by simp
  have rc: "is_read_char junk st = Inr (c, s1)"
    using assms(1) p(1,2) by (simp add: is_read_char_def tw s1_def)
  have un: "is_unget s1 = Inr s3"
    using assms(1) by (simp add: is_unget_def ios_clear_def raises_def good_def s1_def s3_def)
  have ex: "extract_op junk Dec st self = getDec s3 (self\<lparr>negative := False\<rparr>)"
    using ns(1,2) by (simp add: extract_op_def rc un Let_def)
  have "good s3" "no_exceptions s3" "drop (gpos s3) (buf s3) = ds"
    using assms(1,2,3) by (simp_all add: s3_def good_def no_exceptions_def)
  with ex show ?thesis
    by blast
qed

lemma extract_signed:
  assumes "good st" and "no_exceptions st" and "drop (gpos st) (buf st) = sg # ds"
    and "ds \<noteq> []" and "sg = CHR ''-'' \<or> sg = CHR ''+''"
  shows "\<exists>s3. extract_op junk Dec st self = getDec s3 (self\<lparr>negative := (sg = CHR ''-'')\<rparr>)
       \<and> good s3 \<and> no_exceptions s3 \<and> drop (gpos s3) (buf s3) = ds"
proof -
  obtain c cs where ds: "ds = c # cs"
    using assms(4) by (cases ds) auto
  have sp: "\<not> isspace sg"
    using assms(5) by (auto simp: isspace_def)
  note p = drop_Cons_pos [OF assms(3)]
  note p2 = drop_Cons_pos [OF p(3) [unfolded ds]]
  define s1 where "s1 = st\<lparr>gpos := gpos st + 1\<rparr>"
  define s2 where "s2 = st\<lparr>gpos := gpos st + 1 + 1\<rparr>"
  define s3 where "s3 = st\<lparr>gpos := gpos st + 1, eofbit := False\<rparr>"
  have tw: "takeWhile isspace (drop (gpos st) (buf st)) = []"
    unfolding assms(3) using sp by simp
  have rc: "is_read_char junk st = Inr (sg, s1)"
    using assms(1) p(1,2) by (simp add: is_read_char_def tw s1_def)
  have g: "is_get s1 = Inr (Some c, s2)"
    using assms(1) p2(1,2) by (simp add: is_get_def good_def s1_def s2_def)
  have un: "is_unget s2 = Inr s3"
    using assms(1) by (simp add: is_unget_def ios_clear_def raises_def good_def s2_def s3_def)
  have ex: "extract_op junk Dec st self = getDec s3 (self\<lparr>negative := (sg = CHR ''-'')\<rparr>)"
    using assms(5) by (simp add: extract_op_def rc g un Let_def)
  have "good s3" "no_exceptions s3" "drop (gpos s3) (buf s3) = ds"
    using assms(1,2) p(3) by (simp_all add: s3_def good_def no_exceptions_def)
  with ex show ?thesis
    by blast
qed

lemma getDec_digits:
  assumes "good s" and "no_exceptions s" and "drop (gpos s) (buf s) = ds" and "ds \<noteq> []"
    and "\<forall>c\<in>set ds. isdigit (Some c)"
  shows "\<exists>s' x. getDec s self = Inr (s', x)
       \<and> putDec x = Some (if dropWhile (\<lambda>c. c = CHR ''0'') ds = [] then ''0''
                           else dropWhile (\<lambda>c. c = CHR ''0'') ds)
       \<and> negative x = (negative self \<and> dropWhile (\<lambda>c. c = CHR ''0'') ds \<noteq> [])"
proof (cases "dropWhile (\<lambda>c. c = CHR ''0'') ds = []")
  case True
  then have z: "\<forall>c\<in>set ds. c = CHR ''0''"
    by (simp add: dropWhile_eq_Nil_conv)
  obtain s' where "getDec s self = Inr (s', self\<lparr>limbs := [0], negative := False\<rparr>)"
    using getDec_zero [OF assms(1,2,3,4) z] by blast
  then show ?thesis
    using True by (simp add: putDec_def)
next
  case False
  define zs where "zs = takeWhile (\<lambda>c. c = CHR ''0'') ds"
  define ds' where "ds' = dropWhile (\<lambda>c. c = CHR ''0'') ds"
  have split: "drop (gpos s) (buf s) = zs @ ds'"
    unfolding zs_def ds'_def assms(3) by simp
  have zs: "\<forall>c\<in>set zs. c = CHR ''0''"
    unfolding zs_def by (auto dest: set_takeWhileD)
  have ne: "ds' \<noteq> []"
    using False by (simp add: ds'_def)
  have hd: "hd ds' \<noteq> CHR ''0''"
    using False unfolding ds'_def by (rule hd_dropWhile)
  have dg: "\<forall>c\<in>set ds'. isdigit (Some c)"
    using assms(5) unfolding ds'_def by (auto dest: set_dropWhileD)
  obtain s' L where g: "getDec s self = Inr (s', self\<lparr>limbs := L\<rparr>)" and L: "L \<noteq> []"
      "le_value (2 ^ 32) L = digits_value ds'" "(10 ^ 9) ^ (length L - 1) \<le> digits_value ds'"
    using getDec_nonzero [OF assms(1) split zs ne hd dg assms(2)] by blast
  have "(0::nat) < (10 ^ 9) ^ (length L - 1)"
    by simp
  then have pos: "0 < digits_value ds'"
    using L(3) by linarith
  have "putDec (self\<lparr>limbs := L\<rparr>) = Some (dec_string (le_value (2 ^ 32) L))"
    using putDec_spec [of "self\<lparr>limbs := L\<rparr>"] L pos by simp
  also have "dec_string (le_value (2 ^ 32) L) = ds'"
    unfolding L(2) by (rule dec_string_digits [OF ne dg hd])
  finally show ?thesis
    using g False by (simp add: ds'_def del: dropWhile_eq_Nil_conv)
qed

text \<open>
  Claim C2. Let \<open>s\<close> be a supported decimal string: an optional \<open>+\<close> or \<open>-\<close>
  followed by one or more decimal digits. On a good stream with an empty
  \<^verbatim>\<open>exceptions()\<close> mask whose unread text is \<open>s\<close> (a fresh stream on \<open>s\<close> is
  one), \<^verbatim>\<open>operator>>\<close> in decimal mode returns, whatever the value held
  before and whatever the uninitialised local holds, and \<^verbatim>\<open>operator<<\<close> in
  decimal mode writes the canonical form of \<open>s\<close> for the value read: no leading zeros,
  a minus sign only for a negative value that is not zero, and \<open>0\<close> for zero.
\<close>

theorem decimal_round_trip:
  assumes "sign = [] \<or> sign = ''+'' \<or> sign = ''-''" and "ds \<noteq> []"
    and "list_all (\<lambda>c. isdigit (Some c)) ds"
    and "good st" and "no_exceptions st" and "drop (gpos st) (buf st) = sign @ ds"
  shows "\<exists>st' x. extract_op junk Dec st self = Inr (st', x)
       \<and> insert_op Dec x = Some (canonical_form (sign @ ds))"
proof -
  have dg: "\<forall>c\<in>set ds. isdigit (Some c)"
    using assms(3) by (simp add: list_all_iff)
  obtain c cs where ds: "ds = c # cs"
    using assms(2) by (cases ds) auto
  have c: "isdigit (Some c)"
    using dg ds by simp
  note ns = digit_not_sign [OF c]
  let ?rest = "dropWhile (\<lambda>c. c = CHR ''0'') ds"
  show ?thesis
  proof (cases "sign = []")
    case True
    then have unread: "drop (gpos st) (buf st) = ds"
      using assms(6) by simp
    obtain s3 where ex: "extract_op junk Dec st self = getDec s3 (self\<lparr>negative := False\<rparr>)"
        and s3: "good s3" "no_exceptions s3" "drop (gpos s3) (buf s3) = ds"
      using extract_unsigned [OF assms(4,5) unread assms(2) dg] by blast
    obtain s' x where g: "getDec s3 (self\<lparr>negative := False\<rparr>) = Inr (s', x)"
        and p: "putDec x = Some (if ?rest = [] then ''0'' else ?rest)"
        and n: "negative x = (negative (self\<lparr>negative := False\<rparr>) \<and> ?rest \<noteq> [])"
      using getDec_digits [OF s3 assms(2) dg] by blast
    have cf: "canonical_form ds = (if ?rest = [] then ''0'' else ?rest)"
      using ns(1,2) by (simp add: canonical_form_def ds Let_def del: dropWhile_eq_Nil_conv)
    have "insert_op Dec x = Some (canonical_form ds)"
      using p n by (simp add: insert_op_def cf)
    then show ?thesis
      using True g ex by simp
  next
    case False
    then obtain sg where sg: "sign = [sg]" "sg = CHR ''-'' \<or> sg = CHR ''+''"
      using assms(1) by auto
    have unread: "drop (gpos st) (buf st) = sg # ds"
      using assms(6) sg(1) by simp
    obtain s3 where ex: "extract_op junk Dec st self
          = getDec s3 (self\<lparr>negative := (sg = CHR ''-'')\<rparr>)"
        and s3: "good s3" "no_exceptions s3" "drop (gpos s3) (buf s3) = ds"
      using extract_signed [OF assms(4,5) unread assms(2) sg(2)] by blast
    obtain s' x where g: "getDec s3 (self\<lparr>negative := (sg = CHR ''-'')\<rparr>) = Inr (s', x)"
        and p: "putDec x = Some (if ?rest = [] then ''0'' else ?rest)"
        and n: "negative x = (negative (self\<lparr>negative := (sg = CHR ''-'')\<rparr>) \<and> ?rest \<noteq> [])"
      using getDec_digits [OF s3 assms(2) dg] by blast
    have cf: "canonical_form (sg # ds)
        = (if ?rest = [] then ''0'' else if sg = CHR ''-'' then CHR ''-'' # ?rest else ?rest)"
      using sg(2) by (auto simp: canonical_form_def Let_def simp del: dropWhile_eq_Nil_conv)
    have "insert_op Dec x = Some (canonical_form (sg # ds))"
      using p n by (simp add: insert_op_def cf)
    then show ?thesis
      using sg(1) g ex by simp
  qed
qed

text \<open>The round trip on \<open>-0012345678901234567890\<close>, three groups of nine digits, two limbs.\<close>

theorem decimal_round_trip_witness:
  "(''-'' = [] \<or> ''-'' = ''+'' \<or> ''-'' = ''-'') \<and> ''0012345678901234567890'' \<noteq> []
   \<and> list_all (\<lambda>c. isdigit (Some c)) ''0012345678901234567890''
   \<and> good (stream_of ''-0012345678901234567890'')
   \<and> no_exceptions (stream_of ''-0012345678901234567890'')
   \<and> drop (gpos (stream_of ''-0012345678901234567890'')) (buf (stream_of ''-0012345678901234567890''))
       = ''-'' @ ''0012345678901234567890''
   \<and> (\<exists>st' x. extract_op CHR ''x'' Dec (stream_of ''-0012345678901234567890'')
                 \<lparr>limbs = [7, 7], negative = False\<rparr> = Inr (st', x)
              \<and> insert_op Dec x = Some (canonical_form (''-'' @ ''0012345678901234567890'')))
   \<and> canonical_form (''-'' @ ''0012345678901234567890'') = ''-12345678901234567890''"
proof -
  have a: "''-'' = [] \<or> ''-'' = ''+'' \<or> ''-'' = ''-''"
    by simp
  have b: "''0012345678901234567890'' \<noteq> []"
    by simp
  have c: "list_all (\<lambda>c. isdigit (Some c)) ''0012345678901234567890''"
    by (simp add: isdigit_def)
  have d: "canonical_form (''-'' @ ''0012345678901234567890'') = ''-12345678901234567890''"
    by (simp add: canonical_form_def)
  have e: "good (stream_of ''-0012345678901234567890'')"
    by (simp add: stream_of_def good_def)
  have f: "no_exceptions (stream_of ''-0012345678901234567890'')"
    by (simp add: stream_of_def no_exceptions_def)
  have g: "drop (gpos (stream_of ''-0012345678901234567890'')) (buf (stream_of ''-0012345678901234567890''))
      = ''-'' @ ''0012345678901234567890''"
    by (simp add: stream_of_def)
  from decimal_round_trip [OF a b c e f g, of "CHR ''x''" "\<lparr>limbs = [7, 7], negative = False\<rparr>"]
  show ?thesis
    using a b c d e f g by simp
qed

end
